theory Spec2Isabelle
  imports Main "HOL-Library.Sublist"
begin

section \<open>s3sync: the syncer package (syncer/syncer.go)\<close>

text \<open>
  A shallow embedding of \<^verbatim>\<open>syncer.go\<close>. The Go methods of \<^verbatim>\<open>Syncer\<close> talk to the
  local file system, to the S3 client, to the sqlite ledger and to the splitter
  goroutine. Here every such effect is a step on an explicit \<open>world\<close>: the file
  system, the ledger tables and the list of calls made so far (\<open>trace\<close>). Whether
  an outside call fails is decided by an \<open>env\<close> of outcome functions, which may
  look at the whole world (and so at the whole history).

  The progress spinner (\<^verbatim>\<open>pterm\<close>) is user interface only; of its methods only
  \<^verbatim>\<open>Start\<close> can fail, and only that is modelled. \<^verbatim>\<open>context.Context\<close> is passed
  through to the S3 client unchanged and is left out.
\<close>

subsection \<open>Data\<close>

datatype error = NotExist string | Failure string

datatype StorageClass = StorageClassStandard | StorageClassDeepArchive

datatype upload_status = Pending | Uploaded

text \<open>What \<^verbatim>\<open>os.FileInfo\<close> gives: \<^verbatim>\<open>Name()\<close>, \<^verbatim>\<open>Size()\<close> (int64),
  \<^verbatim>\<open>ModTime().Unix()\<close> (int64) and \<^verbatim>\<open>IsDir()\<close>.\<close>

record FileInfo =
  Name :: string
  Size :: int
  ModTime :: int
  IsDir :: bool

text \<open>\<^verbatim>\<open>s3.PutObjectInput\<close>; the body is the open file, named by its path.\<close>

record PutObjectInput =
  PutBucket :: string
  Key :: string
  PutStorageClass :: StorageClass
  Body :: string

text \<open>The ledger rows of the specification's data model.\<close>

record FileStatusRecord =
  lastModified :: int
  uploadStatus :: upload_status

record TransferRecord =
  transferID :: nat
  sourcePath :: string

record PartRecord =
  partTransferID :: nat
  partPath :: string
  sequence :: nat
  partStatus :: upload_status

text \<open>The calls the package makes to its collaborators, in the order made.\<close>

datatype event =
    EStat string
  | EOpen string "error option"
  | EPut PutObjectInput "error option"
  | ESetMultipart string "error + nat"
  | ESplitFile string
  | EPiece string
  | EDone "error option"
  | ERecordParts nat "string list" "error option"
  | ECleanUp "string list"
  | EUpdateUploadStatus string "error option"
  | EUpdateUploadStatusPart string "error option"
  | EUpdateRecord string int "error option"

record world =
  fs :: "string \<rightharpoonup> FileInfo"
  fileRecords :: "string \<rightharpoonup> FileStatusRecord"
  transfers :: "TransferRecord list"
  parts :: "PartRecord list"
  trace :: "event list"

text \<open>The texts a spinner is started with.\<close>

datatype spin_text =
    Uploading_file string nat nat
  | Taking_inventory
  | Splitting string
  | Uploading_parts

text \<open>What the splitter goroutine sends, in the order the coordinator receives it:
  a piece path on \<^verbatim>\<open>progress\<close> (with the file it has written), or the terminal value
  on \<^verbatim>\<open>retErr\<close>.\<close>

datatype split_msg = Piece string FileInfo | Done "error option"

text \<open>One call of the \<^verbatim>\<open>filepath.Walk\<close> callback: \<open>(p, info, nil)\<close> or \<open>(p, _, err)\<close>.\<close>

datatype walk_arg = Visit string FileInfo | VisitErr string error

text \<open>The Go struct, without the handles that live in \<open>world\<close> and \<open>env\<close>.\<close>

record Syncer =
  FolderPath :: string
  Bucket :: string

text \<open>The outcomes of the calls that leave the package.\<close>

record env =
  Separator :: char
  spinnerStart :: "world \<Rightarrow> spin_text \<Rightarrow> error option"
  openErr :: "world \<Rightarrow> string \<Rightarrow> error option"
  s3PutObject :: "world \<Rightarrow> PutObjectInput \<Rightarrow> error option"
  SplitFile :: "world \<Rightarrow> string \<Rightarrow> split_msg list"
  Walk :: "world \<Rightarrow> string \<Rightarrow> walk_arg list"
  setMultipartRes :: "world \<Rightarrow> string \<Rightarrow> error + nat"
  recordPartsErr :: "world \<Rightarrow> nat \<Rightarrow> string list \<Rightarrow> error option"
  updateUploadStatusErr :: "world \<Rightarrow> string \<Rightarrow> error option"
  updateUploadStatusPartErr :: "world \<Rightarrow> string \<Rightarrow> error option"
  updateRecordErr :: "world \<Rightarrow> string \<Rightarrow> int \<Rightarrow> error option"

definition log :: "event \<Rightarrow> world \<Rightarrow> world" where
  "log e w = w\<lparr>trace := trace w @ [e]\<rparr>"

subsection \<open>The operating system and the Go library\<close>

text \<open>\<^verbatim>\<open>os.Stat\<close>: the file's info, or an error when there is no such file. A
  failure of \<^verbatim>\<open>os.Stat\<close> on a file that is there is not modelled.\<close>

definition os_Stat :: "world \<Rightarrow> string \<Rightarrow> (error + FileInfo) \<times> world" where
  "os_Stat w p =
     ((case fs w p of None \<Rightarrow> Inl (NotExist p) | Some info \<Rightarrow> Inr info), log (EStat p) w)"

text \<open>\<^verbatim>\<open>os.Open\<close>: fails when there is no such file, and may fail on one that is there.\<close>

definition os_Open :: "env \<Rightarrow> world \<Rightarrow> string \<Rightarrow> error option \<times> world" where
  "os_Open env w p =
     (let r = (case fs w p of None \<Rightarrow> Some (NotExist p) | Some info \<Rightarrow> openErr env w p)
      in (r, log (EOpen p r) w))"

text \<open>\<^verbatim>\<open>strings.HasSuffix(s, suffix)\<close>:
  \<^verbatim>\<open>len(s) >= len(suffix) && s[len(s)-len(suffix):] == suffix\<close>.\<close>

definition HasSuffix :: "string \<Rightarrow> string \<Rightarrow> bool" where
  "HasSuffix s suffix' \<longleftrightarrow>
     length s \<ge> length suffix' \<and> drop (length s - length suffix') s = suffix'"

text \<open>\<^verbatim>\<open>filepath.FromSlash\<close>: every slash becomes the platform's separator; the path
  is returned as it is where the separator is the slash.\<close>

definition FromSlash :: "char \<Rightarrow> string \<Rightarrow> string" where
  "FromSlash sep path =
     (if sep = CHR ''/'' then path
      else map (\<lambda>c. if c = CHR ''/'' then sep else c) path)"

subsection \<open>The ledger and the splitter package\<close>

text \<open>Modelled from the spec: \<^verbatim>\<open>markFileUploaded(path)\<close> (the method
  \<^verbatim>\<open>updateUploadStatus\<close> is not in syncer.go). On success the file's
  FileStatusRecord has \<open>uploadStatus = Uploaded\<close>; a path with no record has none
  to mark. On failure the ledger is unchanged.\<close>

definition updateUploadStatus :: "env \<Rightarrow> world \<Rightarrow> string \<Rightarrow> error option \<times> world" where
  "updateUploadStatus env w p =
     (case updateUploadStatusErr env w p of
        Some e \<Rightarrow> (Some e, log (EUpdateUploadStatus p (Some e)) w)
      | None \<Rightarrow>
          (None, log (EUpdateUploadStatus p None)
             (w\<lparr>fileRecords :=
                  (case fileRecords w p of
                     None \<Rightarrow> fileRecords w
                   | Some r \<Rightarrow> (fileRecords w)(p \<mapsto> r\<lparr>uploadStatus := Uploaded\<rparr>))\<rparr>)))"

text \<open>Modelled from the spec: \<^verbatim>\<open>markPartUploaded(partPath)\<close> (the method
  \<^verbatim>\<open>updateUploadStatusPart\<close> is not in syncer.go). On success every PartRecord of
  that path has \<open>uploadStatus = Uploaded\<close>.\<close>

definition updateUploadStatusPart :: "env \<Rightarrow> world \<Rightarrow> string \<Rightarrow> error option \<times> world" where
  "updateUploadStatusPart env w p =
     (case updateUploadStatusPartErr env w p of
        Some e \<Rightarrow> (Some e, log (EUpdateUploadStatusPart p (Some e)) w)
      | None \<Rightarrow>
          (None, log (EUpdateUploadStatusPart p None)
             (w\<lparr>parts :=
                  map (\<lambda>r. if partPath r = p then r\<lparr>partStatus := Uploaded\<rparr> else r)
                    (parts w)\<rparr>)))"

text \<open>Modelled from the spec: allocating a TransferRecord for the source file (the
  method \<^verbatim>\<open>setMultipart\<close> is not in syncer.go). On success the record is stored
  and its identifier returned.\<close>

definition setMultipart :: "env \<Rightarrow> world \<Rightarrow> string \<Rightarrow> (error + nat) \<times> world" where
  "setMultipart env w obj =
     (case setMultipartRes env w obj of
        Inl e \<Rightarrow> (Inl e, log (ESetMultipart obj (Inl e)) w)
      | Inr i \<Rightarrow>
          (Inr i, log (ESetMultipart obj (Inr i))
             (w\<lparr>transfers := transfers w @ [\<lparr>transferID = i, sourcePath = obj\<rparr>]\<rparr>)))"

text \<open>Modelled from the spec: \<^verbatim>\<open>recordParts(transferID, []partPath)\<close> (the method is
  not in syncer.go). On success one PartRecord per piece is stored, in Pending
  status, with its position in the list as sequence.\<close>

definition recordParts :: "env \<Rightarrow> world \<Rightarrow> nat \<Rightarrow> string list \<Rightarrow> error option \<times> world" where
  "recordParts env w i pieces =
     (case recordPartsErr env w i pieces of
        Some e \<Rightarrow> (Some e, log (ERecordParts i pieces (Some e)) w)
      | None \<Rightarrow>
          (None, log (ERecordParts i pieces None)
             (w\<lparr>parts := parts w @
                  map (\<lambda>(k, p). \<lparr>partTransferID = i, partPath = p, sequence = k,
                                  partStatus = Pending\<rparr>)
                    (enumerate 0 pieces)\<rparr>)))"

text \<open>Modelled from the spec: \<^verbatim>\<open>upsertFileStatus(path, lastModified, status)\<close> (the
  method \<^verbatim>\<open>updateRecord\<close> is not in syncer.go). On success the path's record holds
  the new modification time and is Pending again.\<close>

definition updateRecord :: "env \<Rightarrow> world \<Rightarrow> string \<Rightarrow> int \<Rightarrow> error option \<times> world" where
  "updateRecord env w k v =
     (case updateRecordErr env w k v of
        Some e \<Rightarrow> (Some e, log (EUpdateRecord k v (Some e)) w)
      | None \<Rightarrow>
          (None, log (EUpdateRecord k v None)
             (w\<lparr>fileRecords :=
                  (fileRecords w)(k \<mapsto> \<lparr>lastModified = v, uploadStatus = Pending\<rparr>)\<rparr>)))"

text \<open>Modelled from the spec: \<^verbatim>\<open>splitter.CleanUp(pieces)\<close> (the splitter package is
  not among the sources) deletes the listed piece files from local storage.\<close>

definition CleanUp :: "string list \<Rightarrow> world \<Rightarrow> world" where
  "CleanUp pieces w =
     log (ECleanUp pieces) (w\<lparr>fs := fold (\<lambda>p f. f(p := None)) pieces (fs w)\<rparr>)"

subsection \<open>syncer.go\<close>

text \<open>\<^verbatim>\<open>inFilters\<close> (lines 102-109).\<close>

fun inFilters :: "string \<Rightarrow> string list \<Rightarrow> bool" where
  "inFilters name [] = False"
| "inFilters name (filter' # filters) =
     (if HasSuffix name filter' then True else inFilters name filters)"

text \<open>\<^verbatim>\<open>localize\<close> (lines 112-116).\<close>

definition localize :: "env \<Rightarrow> string \<Rightarrow> string" where
  "localize env s = FromSlash (Separator env) s"

text \<open>\<^verbatim>\<open>getLastModDate\<close> (lines 230-237).\<close>

definition getLastModDate :: "world \<Rightarrow> string \<Rightarrow> (error + int) \<times> world" where
  "getLastModDate w f =
     (case os_Stat w f of
        (Inl err, w') \<Rightarrow> (Inl err, w')
      | (Inr fileinfo, w') \<Rightarrow> (Inr (ModTime fileinfo), w'))"

text \<open>The \<^verbatim>\<open>for { select { ... } }\<close> of \<^verbatim>\<open>splitObject\<close> (lines 180-194). Both
  channels are unbuffered, so the coordinator receives the messages one at a time,
  in the order the splitter sends them. The loop ends at the first terminal value;
  with no message left and no terminal value seen, the \<^verbatim>\<open>select\<close> blocks for ever
  (\<open>None\<close>). The counter \<^verbatim>\<open>count\<close> only feeds the spinner text.

  Modelled from the spec: the splitter (\<^verbatim>\<open>splitter.SplitFile\<close>, not among the sources)
  emits each piece's path as it finishes writing it, so a piece is on local storage
  when its path arrives.\<close>

fun split_loop ::
  "split_msg list \<Rightarrow> world \<Rightarrow> string list \<Rightarrow> ((string list \<times> error option) \<times> world) option"
where
  "split_loop [] w pieces = None"
| "split_loop (Piece piece info # ms) w pieces =
     split_loop ms (log (EPiece piece) (w\<lparr>fs := (fs w)(piece \<mapsto> info)\<rparr>)) (pieces @ [piece])"
| "split_loop (Done err # ms) w pieces = Some ((pieces, err), log (EDone err) w)"

text \<open>\<^verbatim>\<open>splitObject\<close> (lines 161-204). The value received from \<^verbatim>\<open>retErr\<close> is held in
  \<^verbatim>\<open>err\<close>, which line 199 assigns again; the deferred \<^verbatim>\<open>CleanUp\<close> of line 197 runs
  when the function returns, on both returns that follow it.\<close>

definition splitObject ::
  "env \<Rightarrow> Syncer \<Rightarrow> world \<Rightarrow> string \<Rightarrow> FileInfo \<Rightarrow> ((string list \<times> error option) \<times> world) option"
where
  "splitObject env app w obj info =
     (case setMultipart env w obj of
        (Inl err, w1) \<Rightarrow> Some (([], Some err), w1)
      | (Inr i, w1) \<Rightarrow>
          (let msgs = SplitFile env w1 obj;
               w2 = log (ESplitFile obj) w1
           in case spinnerStart env w2 (Splitting obj) of
                Some err \<Rightarrow> Some (([], Some err), w2)
              | None \<Rightarrow>
                  (case split_loop msgs w2 [] of
                     None \<Rightarrow> None
                   | Some ((pieces, err), w3) \<Rightarrow>
                       (case recordParts env w3 i pieces of
                          (Some err', w4) \<Rightarrow> Some (([], Some err'), CleanUp pieces w4)
                        | (None, w4) \<Rightarrow> Some ((pieces, None), CleanUp pieces w4)))))"

text \<open>\<^verbatim>\<open>putObject\<close> (lines 121-159) and \<^verbatim>\<open>putObjs\<close> (lines 206-226) call each other:
  a piece is uploaded by \<^verbatim>\<open>putObject\<close>, which would split it again were it too big.
  The first argument bounds the depth of that nesting; \<open>None\<close> is a call that does
  not return. \<open>putObjs_loop\<close> is the \<^verbatim>\<open>for\<close> of lines 212-223.\<close>

fun putObject ::
    "nat \<Rightarrow> env \<Rightarrow> Syncer \<Rightarrow> world \<Rightarrow> string \<Rightarrow> bool \<Rightarrow> (error option \<times> world) option"
  and putObjs ::
    "nat \<Rightarrow> env \<Rightarrow> Syncer \<Rightarrow> world \<Rightarrow> string list \<Rightarrow> bool \<Rightarrow> (error option \<times> world) option"
  and putObjs_loop ::
    "nat \<Rightarrow> env \<Rightarrow> Syncer \<Rightarrow> world \<Rightarrow> string list \<Rightarrow> bool \<Rightarrow> (error option \<times> world) option"
where
  "putObject 0 env app w obj deep = None"
| "putObject (Suc n) env app w obj deep =
     (case os_Stat w obj of
        (Inl err, w1) \<Rightarrow> Some (Some err, w1)
      | (Inr info, w1) \<Rightarrow>
          if Size info > 4294967296 then
            (case splitObject env app w1 obj info of
               None \<Rightarrow> None
             | Some ((pieces, Some err), w2) \<Rightarrow> Some (Some err, w2)
             | Some ((pieces, None), w2) \<Rightarrow> putObjs n env app w2 pieces deep)
          else
            (case os_Open env w1 obj of
               (Some err, w2) \<Rightarrow> Some (Some err, w2)
             | (None, w2) \<Rightarrow>
                 (let storageClass =
                        (if deep then StorageClassDeepArchive else StorageClassStandard);
                      input = \<lparr>PutBucket = Bucket app, Key = localize env obj,
                               PutStorageClass = storageClass, Body = obj\<rparr>;
                      err = s3PutObject env w2 input
                  in Some (err, log (EPut input err) w2))))"
| "putObjs n env app w objs deep =
     (case spinnerStart env w Uploading_parts of
        Some err \<Rightarrow> Some (Some err, w)
      | None \<Rightarrow> putObjs_loop n env app w objs deep)"
| "putObjs_loop n env app w [] deep = Some (None, w)"
| "putObjs_loop n env app w (obj # objs) deep =
     (case putObject n env app w obj deep of
        None \<Rightarrow> None
      | Some (Some err, w1) \<Rightarrow> Some (Some err, w1)
      | Some (None, w1) \<Rightarrow>
          (case updateUploadStatusPart env w1 obj of
             (Some err, w2) \<Rightarrow> Some (Some err, w2)
           | (None, w2) \<Rightarrow> putObjs_loop n env app w2 objs deep))"

text \<open>\<^verbatim>\<open>UploadDiffs\<close> (lines 28-55); \<open>UploadDiffs_loop\<close> is the \<^verbatim>\<open>for\<close> of lines 35-52,
  at index \<open>i\<close> of \<open>count\<close>.\<close>

fun UploadDiffs_loop ::
  "nat \<Rightarrow> env \<Rightarrow> Syncer \<Rightarrow> world \<Rightarrow> nat \<Rightarrow> nat \<Rightarrow> string list \<Rightarrow> bool
     \<Rightarrow> (error option \<times> world) option"
where
  "UploadDiffs_loop n env app w i count [] deep = Some (None, w)"
| "UploadDiffs_loop n env app w i count (v # vs) deep =
     (case spinnerStart env w (Uploading_file v (i + 1) count) of
        Some err \<Rightarrow> Some (Some err, w)
      | None \<Rightarrow>
          (case putObject n env app w v deep of
             None \<Rightarrow> None
           | Some (Some err, w1) \<Rightarrow> Some (Some err, w1)
           | Some (None, w1) \<Rightarrow>
               (case updateUploadStatus env w1 v of
                  (Some err, w2) \<Rightarrow> Some (Some err, w2)
                | (None, w2) \<Rightarrow> UploadDiffs_loop n env app w2 (i + 1) count vs deep)))"

definition UploadDiffs ::
  "nat \<Rightarrow> env \<Rightarrow> Syncer \<Rightarrow> world \<Rightarrow> string list \<Rightarrow> bool \<Rightarrow> (error option \<times> world) option"
where
  "UploadDiffs n env app w diffs deep =
     (let count = length diffs
      in if count = 0 then Some (None, w)
         else UploadDiffs_loop n env app w 0 count diffs deep)"

text \<open>\<^verbatim>\<open>UpdateManifest\<close> (lines 58-64). The Go map is given as the list of its
  entries in the order the \<^verbatim>\<open>range\<close> visits them. What \<^verbatim>\<open>updateRecord\<close> returns is
  dropped.\<close>

fun UpdateManifest_loop :: "env \<Rightarrow> world \<Rightarrow> (string \<times> int) list \<Rightarrow> world" where
  "UpdateManifest_loop env w [] = w"
| "UpdateManifest_loop env w ((k, v) # objs) =
     UpdateManifest_loop env (snd (updateRecord env w k v)) objs"

definition UpdateManifest :: "env \<Rightarrow> world \<Rightarrow> (string \<times> int) list \<Rightarrow> error option \<times> world" where
  "UpdateManifest env w objs = (None, UpdateManifest_loop env w objs)"

text \<open>\<^verbatim>\<open>WalkAndHash\<close> (lines 69-99). \<open>walkFn\<close> is the callback of lines 75-92, and
  \<open>Walk_loop\<close> is \<^verbatim>\<open>filepath.Walk\<close> calling it on each visit until it returns an
  error. The Go function returns a nil map with an error; a nil map has no
  entries.\<close>

definition walkFn ::
  "env \<Rightarrow> string list \<Rightarrow> world \<Rightarrow> (string \<rightharpoonup> int) \<Rightarrow> walk_arg
     \<Rightarrow> (error option \<times> (string \<rightharpoonup> int)) \<times> world"
where
  "walkFn env filters w retMap a =
     (case a of
        VisitErr p err \<Rightarrow> ((None, retMap), w)
      | Visit p info \<Rightarrow>
          if \<not> IsDir info then
            (if \<not> inFilters (Name info) filters then ((None, retMap), w)
             else (case getLastModDate w p of
                     (Inl err, w') \<Rightarrow> ((Some err, retMap), w')
                   | (Inr h, w') \<Rightarrow> ((None, retMap(localize env p \<mapsto> h)), w')))
          else ((None, retMap), w))"

fun Walk_loop ::
  "env \<Rightarrow> string list \<Rightarrow> world \<Rightarrow> (string \<rightharpoonup> int) \<Rightarrow> walk_arg list
     \<Rightarrow> (error option \<times> (string \<rightharpoonup> int)) \<times> world"
where
  "Walk_loop env filters w retMap [] = ((None, retMap), w)"
| "Walk_loop env filters w retMap (a # as) =
     (case walkFn env filters w retMap a of
        ((Some err, retMap'), w') \<Rightarrow> ((Some err, retMap'), w')
      | ((None, retMap'), w') \<Rightarrow> Walk_loop env filters w' retMap' as)"

definition WalkAndHash ::
  "env \<Rightarrow> Syncer \<Rightarrow> world \<Rightarrow> string list \<Rightarrow> ((string \<rightharpoonup> int) \<times> error option) \<times> world"
where
  "WalkAndHash env app w filters =
     (case spinnerStart env w Taking_inventory of
        Some err \<Rightarrow> ((Map.empty, Some err), w)
      | None \<Rightarrow>
          (case Walk_loop env filters w Map.empty (Walk env w (FolderPath app)) of
             ((Some err, retMap), w') \<Rightarrow> ((Map.empty, Some err), w')
           | ((None, retMap), w') \<Rightarrow> ((retMap, None), w')))"

subsection \<open>Reading a trace\<close>

text \<open>The calls made between two worlds of one run.\<close>

definition newEvents :: "world \<Rightarrow> world \<Rightarrow> event list" where
  "newEvents w w' = drop (length (trace w)) (trace w')"

text \<open>The Put calls issued, whatever their outcome.\<close>

fun putsOf :: "event list \<Rightarrow> PutObjectInput list" where
  "putsOf [] = []"
| "putsOf (EPut inp r # es) = inp # putsOf es"
| "putsOf (e # es) = putsOf es"

text \<open>The bodies of the Put calls that returned success.\<close>

fun okPutsOf :: "event list \<Rightarrow> string list" where
  "okPutsOf [] = []"
| "okPutsOf (EPut inp None # es) = Body inp # okPutsOf es"
| "okPutsOf (e # es) = okPutsOf es"

text \<open>The paths whose file status was committed as Uploaded.\<close>

fun commitsOf :: "event list \<Rightarrow> string list" where
  "commitsOf [] = []"
| "commitsOf (EUpdateUploadStatus p None # es) = p # commitsOf es"
| "commitsOf (e # es) = commitsOf es"

text \<open>The piece paths received on the progress channel.\<close>

fun piecesOf :: "event list \<Rightarrow> string list" where
  "piecesOf [] = []"
| "piecesOf (EPiece p # es) = p # piecesOf es"
| "piecesOf (e # es) = piecesOf es"

text \<open>The records \<^verbatim>\<open>updateRecord\<close> was called for.\<close>

fun updatesOf :: "event list \<Rightarrow> (string \<times> int) list" where
  "updatesOf [] = []"
| "updatesOf (EUpdateRecord k v r # es) = (k, v) # updatesOf es"
| "updatesOf (e # es) = updatesOf es"

text \<open>Every call of \<^verbatim>\<open>updateUploadStatus\<close> for a path comes directly after a Put of
  that path's file that returned success. \<open>prev\<close> is the call before the list.\<close>

fun statusAfterPut :: "event option \<Rightarrow> event list \<Rightarrow> bool" where
  "statusAfterPut prev [] = True"
| "statusAfterPut prev (EUpdateUploadStatus v r # es) =
     ((case prev of Some (EPut inp None) \<Rightarrow> Body inp = v | _ \<Rightarrow> False) \<and>
      statusAfterPut (Some (EUpdateUploadStatus v r)) es)"
| "statusAfterPut prev (e # es) = statusAfterPut (Some e) es"

text \<open>A path Uploaded in the ledger of \<open>w\<close> is Uploaded in that of \<open>w'\<close>.\<close>

definition keepsUploaded :: "world \<Rightarrow> world \<Rightarrow> bool" where
  "keepsUploaded w w' \<longleftrightarrow>
     (\<forall>p rec. fileRecords w p = Some rec \<and> uploadStatus rec = Uploaded \<longrightarrow>
        (\<exists>rec'. fileRecords w' p = Some rec' \<and> uploadStatus rec' = Uploaded))"

text \<open>Every Put carries as key the localized path of its body.\<close>

definition putKeysLocalized :: "env \<Rightarrow> event list \<Rightarrow> bool" where
  "putKeysLocalized env evs \<longleftrightarrow> list_all (\<lambda>inp. Key inp = localize env (Body inp)) (putsOf evs)"

text \<open>From \<open>w\<close> to \<open>w'\<close> the trace has only grown, by calls whose Puts carry localized
  keys.\<close>

definition stepInv :: "env \<Rightarrow> world \<Rightarrow> world \<Rightarrow> bool" where
  "stepInv env w w' \<longleftrightarrow>
     prefix (trace w) (trace w') \<and> putKeysLocalized env (newEvents w w')"


text \<open>The object key as the specification has it: the path with the platform's
  separators written as forward slashes.\<close>

definition forwardSlashKey :: "env \<Rightarrow> string \<Rightarrow> string" where
  "forwardSlashKey env path = map (\<lambda>c. if c = Separator env then CHR ''/'' else c) path"

text \<open>Two worlds that differ in their file records at most.\<close>

definition sameButRecords :: "world \<Rightarrow> world \<Rightarrow> bool" where
  "sameButRecords w1 w2 \<longleftrightarrow>
     fs w1 = fs w2 \<and> transfers w1 = transfers w2 \<and> parts w1 = parts w2 \<and> trace w1 = trace w2"


text \<open>Two runs end alike: neither returns, or both return the same value in worlds
  that differ in their file records at most.\<close>

definition sameOutcome :: "('a \<times> world) option \<Rightarrow> ('a \<times> world) option \<Rightarrow> bool" where
  "sameOutcome x y \<longleftrightarrow>
     (case x of
        None \<Rightarrow> y = None
      | Some (a, w1) \<Rightarrow> (case y of None \<Rightarrow> False | Some (b, w2) \<Rightarrow> a = b \<and> sameButRecords w1 w2))"

subsection \<open>Example worlds\<close>

text \<open>A platform and collaborators on which every call succeeds, and a splitter that
  signals success without a piece.\<close>

definition okEnv :: env where
  "okEnv = \<lparr>Separator = CHR ''/'',
     spinnerStart = (\<lambda>w t. None),
     openErr = (\<lambda>w p. None),
     s3PutObject = (\<lambda>w inp. None),
     SplitFile = (\<lambda>w p. [Done None]),
     Walk = (\<lambda>w p. []),
     setMultipartRes = (\<lambda>w p. Inr (length (transfers w))),
     recordPartsErr = (\<lambda>w i ps. None),
     updateUploadStatusErr = (\<lambda>w p. None),
     updateUploadStatusPartErr = (\<lambda>w p. None),
     updateRecordErr = (\<lambda>w k v. None)\<rparr>"

definition fileOf :: "string \<Rightarrow> int \<Rightarrow> FileInfo" where
  "fileOf n s = \<lparr>Name = n, Size = s, ModTime = 1700000000, IsDir = False\<rparr>"

definition demoApp :: Syncer where
  "demoApp = \<lparr>FolderPath = ''data'', Bucket = ''backup''\<rparr>"

definition demoWorld :: world where
  "demoWorld = \<lparr>
     fs = [''a.txt'' \<mapsto> fileOf ''a.txt'' 10, ''b.txt'' \<mapsto> fileOf ''b.txt'' 20,
           ''c.txt'' \<mapsto> fileOf ''c.txt'' 30,
           ''big.bin'' \<mapsto> fileOf ''big.bin'' 10737418240],
     fileRecords = [''a.txt'' \<mapsto> \<lparr>lastModified = 1700000000, uploadStatus = Pending\<rparr>],
     transfers = [], parts = [], trace = []\<rparr>"

definition bigFile :: FileInfo where
  "bigFile = fileOf ''big.bin'' 10737418240"


text \<open>A ledger that fails on the record of \<open>a.txt\<close>.\<close>

definition dbFailEnv :: env where
  "dbFailEnv = okEnv\<lparr>updateRecordErr :=
     (\<lambda>w k v. if k = ''a.txt'' then Some (Failure ''database is locked'') else None)\<rparr>"


text \<open>The specification's example: a 10 GiB file split into pieces of 4, 4 and 2 GiB.\<close>

definition splitEnv :: env where
  "splitEnv = okEnv\<lparr>SplitFile := (\<lambda>w p.
     [Piece (p @ ''.0'') (fileOf (p @ ''.0'') 4294967296),
      Piece (p @ ''.1'') (fileOf (p @ ''.1'') 4294967296),
      Piece (p @ ''.2'') (fileOf (p @ ''.2'') 2147483648),
      Done None])\<rparr>"

text \<open>A splitter that writes one piece and then fails.\<close>

definition splitFailEnv :: env where
  "splitFailEnv = okEnv\<lparr>SplitFile := (\<lambda>w p.
     [Piece (p @ ''.0'') (fileOf (p @ ''.0'') 4294967296),
      Done (Some (Failure ''disk full''))])\<rparr>"

text \<open>A splitter that fails before it has written a piece.\<close>

definition splitFailFirstEnv :: env where
  "splitFailFirstEnv = okEnv\<lparr>SplitFile := (\<lambda>w p. [Done (Some (Failure ''read error''))])\<rparr>"

text \<open>As \<open>splitFailEnv\<close>, with a ledger that then fails to record the parts.\<close>

definition splitLedgerFailEnv :: env where
  "splitLedgerFailEnv = splitFailEnv\<lparr>recordPartsErr :=
     (\<lambda>w i ps. Some (Failure ''database is locked''))\<rparr>"

text \<open>A platform whose separator is the backslash, and a path as it is written there.\<close>

definition winEnv :: env where
  "winEnv = okEnv\<lparr>Separator := CHR 0x5C\<rparr>"

definition winPath :: string where
  "winPath = ''dir'' @ [CHR 0x5C] @ ''a.txt''"

definition winWorld :: world where
  "winWorld = \<lparr>fs = [winPath \<mapsto> fileOf ''a.txt'' 10, ''dir/b.txt'' \<mapsto> fileOf ''b.txt'' 20],
     fileRecords = Map.empty, transfers = [], parts = [], trace = []\<rparr>"

text \<open>A walk that visits the root directory, two files and an unreadable entry.\<close>

definition walkEnv :: env where
  "walkEnv = okEnv\<lparr>Walk := (\<lambda>w p.
     [Visit ''data'' \<lparr>Name = ''data'', Size = 0, ModTime = 1700000000, IsDir = True\<rparr>,
      Visit ''data/a.txt'' (fileOf ''a.txt'' 10),
      VisitErr ''data/locked'' (Failure ''permission denied''),
      Visit ''data/b.jpg'' (fileOf ''b.jpg'' 20)])\<rparr>"

definition walkWorld :: world where
  "walkWorld = \<lparr>
     fs = [''data/a.txt'' \<mapsto> fileOf ''a.txt'' 10, ''data/b.jpg'' \<mapsto> fileOf ''b.jpg'' 20],
     fileRecords = Map.empty, transfers = [], parts = [], trace = []\<rparr>"

text \<open>As \<open>demoWorld\<close>, with a ledger record for each of three files.\<close>

definition mixedWorld :: world where
  "mixedWorld = demoWorld\<lparr>fileRecords :=
     [''a.txt'' \<mapsto> \<lparr>lastModified = 1700000000, uploadStatus = Pending\<rparr>,
      ''big.bin'' \<mapsto> \<lparr>lastModified = 1700000000, uploadStatus = Pending\<rparr>,
      ''b.txt'' \<mapsto> \<lparr>lastModified = 1700000000, uploadStatus = Pending\<rparr>]\<rparr>"

section \<open>Properties\<close>

subsection \<open>Traces\<close>

lemmas eval_defs = splitObject_def setMultipart_def recordParts_def CleanUp_def log_def
  os_Stat_def os_Open_def updateUploadStatus_def updateUploadStatusPart_def
  okEnv_def fileOf_def demoApp_def demoWorld_def bigFile_def localize_def FromSlash_def
  UploadDiffs_def Let_def

lemma log_simps [simp]:
  "trace (log e w) = trace w @ [e]"
  "fs (log e w) = fs w"
  "fileRecords (log e w) = fileRecords w"
  "transfers (log e w) = transfers w"
  "parts (log e w) = parts w"
  by (simp_all add: log_def)

lemma putsOf_append [simp]: "putsOf (xs @ ys) = putsOf xs @ putsOf ys"
  by (induction xs rule: putsOf.induct) simp_all

lemma piecesOf_append [simp]: "piecesOf (xs @ ys) = piecesOf xs @ piecesOf ys"
  by (induction xs rule: piecesOf.induct) simp_all

lemma updatesOf_append [simp]: "updatesOf (xs @ ys) = updatesOf xs @ updatesOf ys"
  by (induction xs rule: updatesOf.induct) simp_all

lemma piecesOf_map_EPiece [simp]: "piecesOf (map EPiece qs) = qs"
  by (induction qs) simp_all

lemma putsOf_map_EPiece [simp]: "putsOf (map EPiece qs) = []"
  by (induction qs) simp_all

lemma newEvents_self [simp]: "newEvents w w = []"
  by (simp add: newEvents_def)

lemma newEvents_append: "trace w' = trace w @ evs \<Longrightarrow> newEvents w w' = evs"
  by (simp add: newEvents_def)

lemma newEvents_prefix: "prefix (trace w) (trace w') \<Longrightarrow> trace w' = trace w @ newEvents w w'"
  by (auto simp: prefix_def newEvents_def)

lemma newEvents_trans:
  "prefix (trace a) (trace b) \<Longrightarrow> prefix (trace b) (trace c) \<Longrightarrow>
     newEvents a c = newEvents a b @ newEvents b c"
  by (auto simp: prefix_def newEvents_def)

lemma newEvents_log [simp]: "newEvents w (log e w) = [e]"
  by (simp add: newEvents_def)

lemma commitsOf_append [simp]: "commitsOf (xs @ ys) = commitsOf xs @ commitsOf ys"
  by (induction xs rule: commitsOf.induct) simp_all

lemma okPutsOf_append [simp]: "okPutsOf (xs @ ys) = okPutsOf xs @ okPutsOf ys"
  by (induction xs rule: okPutsOf.induct) simp_all

subsection \<open>The steps of the ledger and of the splitter\<close>

lemma split_loop_effect:
  "split_loop ms w ps = Some ((pieces, err), w') \<Longrightarrow>
     \<exists>qs. pieces = ps @ qs \<and> trace w' = trace w @ map EPiece qs @ [EDone err] \<and>
       fileRecords w' = fileRecords w \<and> parts w' = parts w \<and> transfers w' = transfers w"
proof (induction ms w ps rule: split_loop.induct)
  case (1 w pieces)
  then show ?case by simp
next
  case (2 piece info ms w ps)
  from 2 obtain qs where
    "pieces = (ps @ [piece]) @ qs"
    "trace w' = (trace w @ [EPiece piece]) @ map EPiece qs @ [EDone err]"
    "fileRecords w' = fileRecords w" "parts w' = parts w" "transfers w' = transfers w"
    by auto
  then show ?case
    by (intro exI[of _ "piece # qs"]) simp
next
  case (3 err ms w pieces)
  then show ?case by auto
qed

lemma fs_CleanUp: "fs (CleanUp pieces w) p = (if p \<in> set pieces then None else fs w p)"
proof -
  have h: "fold (\<lambda>p f. f(p := None)) pieces m p = (if p \<in> set pieces then None else m p)" for m
    by (induction pieces arbitrary: m) auto
  show ?thesis by (simp add: CleanUp_def h)
qed

lemma CleanUp_simps [simp]:
  "trace (CleanUp pieces w) = trace w @ [ECleanUp pieces]"
  "fileRecords (CleanUp pieces w) = fileRecords w"
  "parts (CleanUp pieces w) = parts w"
  "transfers (CleanUp pieces w) = transfers w"
  by (simp_all add: CleanUp_def)

text \<open>What a returning \<open>splitObject\<close> has done.\<close>

lemma splitObject_effect:
  assumes "splitObject env app w obj info = Some ((ps, r), w')"
  shows "\<exists>evs. trace w' = trace w @ evs \<and> putsOf evs = [] \<and>
           (\<exists>i. take 1 evs = [ESetMultipart obj i]) \<and>
           (\<forall>p\<in>set (piecesOf evs). fs w' p = None) \<and>
           (piecesOf evs \<noteq> [] \<longrightarrow> last evs = ECleanUp (piecesOf evs)) \<and>
           (r = None \<longrightarrow> ps = piecesOf evs) \<and>
           fileRecords w' = fileRecords w"
proof (cases "setMultipartRes env w obj")
  case (Inl e)
  with assms show ?thesis
    by (auto simp: splitObject_def setMultipart_def)
next
  case (Inr i)
  define w1 where "w1 = log (ESetMultipart obj (Inr i))
     (w\<lparr>transfers := transfers w @ [\<lparr>transferID = i, sourcePath = obj\<rparr>]\<rparr>)"
  define w2 where "w2 = log (ESplitFile obj) w1"
  have t2: "trace w2 = trace w @ [ESetMultipart obj (Inr i), ESplitFile obj]"
    and f2: "fileRecords w2 = fileRecords w"
    by (simp_all add: w1_def w2_def)
  show ?thesis
  proof (cases "spinnerStart env w2 (Splitting obj)")
    case (Some e)
    with assms Inr have "w' = w2" "r = Some e"
      by (auto simp: splitObject_def setMultipart_def w1_def w2_def Let_def)
    with t2 f2 show ?thesis by simp
  next
    case None
    with assms Inr obtain pieces err w3 where
      lp: "split_loop (SplitFile env w1 obj) w2 [] = Some ((pieces, err), w3)"
      and rest: "(case recordParts env w3 i pieces of
                    (Some err', w4) \<Rightarrow> Some (([], Some err'), CleanUp pieces w4)
                  | (None, w4) \<Rightarrow> Some ((pieces, None), CleanUp pieces w4)) = Some ((ps, r), w')"
      by (auto simp: splitObject_def setMultipart_def w1_def w2_def Let_def
          split: option.splits prod.splits)
    from split_loop_effect[OF lp] have
      t3: "trace w3 = trace w2 @ map EPiece pieces @ [EDone err]"
      and f3: "fileRecords w3 = fileRecords w2" by auto
    obtain rr w4 where rp: "recordParts env w3 i pieces = (rr, w4)" by force
    then have t4: "trace w4 = trace w3 @ [ERecordParts i pieces rr]"
      and f4: "fileRecords w4 = fileRecords w3"
      by (auto simp: recordParts_def split: option.splits)
    from rest rp have w': "w' = CleanUp pieces w4" and r: "r = rr"
      and ps: "rr = None \<longrightarrow> ps = pieces"
      by (auto split: option.splits)
    show ?thesis
      using t2 t3 t4 f2 f3 f4 w' r ps
      by (intro exI[of _ "[ESetMultipart obj (Inr i), ESplitFile obj] @ map EPiece pieces @
            [EDone err, ERecordParts i pieces rr, ECleanUp pieces]"])
         (simp add: fs_CleanUp)
  qed
qed

lemma updateUploadStatus_effect:
  assumes "updateUploadStatus env w v = (r, w')"
  shows "trace w' = trace w @ [EUpdateUploadStatus v r]" and "fs w' = fs w"
    and "\<forall>p. fileRecords w' p \<noteq> fileRecords w p \<longrightarrow> p = v \<and> r = None"
  using assms by (auto simp: updateUploadStatus_def split: option.splits if_splits)

subsection \<open>Invariants of the upload functions\<close>

text \<open>A relation on worlds that holds across every step holds across \<open>putObject\<close>,
  \<open>putObjs\<close> and its loop.\<close>

lemma putObject_family_rel:
  assumes rfl: "\<And>env app w. Q env app w w"
    and trans: "\<And>env app a b c. Q env app a b \<Longrightarrow> Q env app b c \<Longrightarrow> Q env app a c"
    and stat: "\<And>env app w p. Q env app w (log (EStat p) w)"
    and opn: "\<And>env app w p r. Q env app w (log (EOpen p r) w)"
    and put: "\<And>env app w obj sc r.
        Q env app w (log (EPut \<lparr>PutBucket = Bucket app, Key = localize env obj,
                                 PutStorageClass = sc, Body = obj\<rparr> r) w)"
    and split: "\<And>env app w obj info res w'.
        splitObject env app w obj info = Some (res, w') \<Longrightarrow> Q env app w w'"
    and part: "\<And>env app w p. Q env app w (snd (updateUploadStatusPart env w p))"
  shows "putObject n env app w obj deep = Some (r, w') \<Longrightarrow> Q env app w w'"
    and "putObjs n env app w objs deep = Some (r, w') \<Longrightarrow> Q env app w w'"
    and "putObjs_loop n env app w objs deep = Some (r, w') \<Longrightarrow> Q env app w w'"
proof (induction n env app w obj deep and n env app w objs deep and n env app w objs deep
    arbitrary: r w' and r w' and r w' rule: putObject_putObjs_putObjs_loop.induct)
  case (1 env app w obj deep)
  then show ?case by simp
next
  case (2 n env app w obj deep)
  show ?case
  proof (cases "fs w obj")
    case None
    with 2(2) stat show ?thesis by (auto simp: os_Stat_def)
  next
    case (Some info)
    show ?thesis
    proof (cases "Size info > 4294967296")
      case True
      with 2(2) Some obtain pieces e w2 where
        sp: "splitObject env app (log (EStat obj) w) obj info = Some ((pieces, e), w2)"
        and rest: "(case e of Some err \<Rightarrow> Some (Some err, w2)
                    | None \<Rightarrow> putObjs n env app w2 pieces deep) = Some (r, w')"
        by (auto simp: os_Stat_def simp del: putObjs.simps split: option.splits prod.splits)
      have q1: "Q env app w (log (EStat obj) w)" by (rule stat)
      have q2: "Q env app (log (EStat obj) w) w2" by (rule split[OF sp])
      show ?thesis
      proof (cases e)
        case (Some err)
        with rest have "w' = w2" by simp
        with q1 q2 show ?thesis by (blast intro: trans)
      next
        case None
        with rest have po: "putObjs n env app w2 pieces deep = Some (r, w')" by simp
        have "os_Stat w obj = (Inr info, log (EStat obj) w)"
          using \<open>fs w obj = Some info\<close> by (simp add: os_Stat_def)
        from 2(1)[OF this[symmetric] refl True sp refl refl None po]
        have "Q env app w2 w'" .
        with q1 q2 show ?thesis by (blast intro: trans)
      qed
    next
      case False
      define w1 where "w1 = log (EStat obj) w"
      define ro where "ro = openErr env w1 obj"
      define w2 where "w2 = log (EOpen obj ro) w1"
      have q1: "Q env app w w1" unfolding w1_def by (rule stat)
      have q2: "Q env app w1 w2" unfolding w2_def by (rule opn)
      have q12: "Q env app w w2" using q1 q2 by (rule trans)
      have op: "os_Open env w1 obj = (ro, w2)"
        using Some by (simp add: os_Open_def w1_def w2_def ro_def Let_def)
      show ?thesis
      proof (cases ro)
        case (Some err)
        with 2(2) \<open>fs w obj = Some info\<close> False op have "w' = w2"
          by (simp add: os_Stat_def w1_def)
        with q12 show ?thesis by simp
      next
        case None
        with 2(2) \<open>fs w obj = Some info\<close> False op obtain sc where
          "w' = log (EPut \<lparr>PutBucket = Bucket app, Key = localize env obj,
                           PutStorageClass = sc, Body = obj\<rparr> r) w2"
          by (auto simp: os_Stat_def w1_def Let_def)
        then have "Q env app w2 w'" by (simp add: put)
        with q12 show ?thesis by (rule trans)
      qed
    qed
  qed
next
  case (3 n env app w objs deep)
  then show ?case using rfl by (auto split: option.splits)
next
  case (4 n env app w deep)
  then show ?case using rfl by simp
next
  case (5 n env app w obj objs deep)
  from 5(3) obtain r1 w1 where p1: "putObject n env app w obj deep = Some (r1, w1)"
    and rest: "(case r1 of Some err \<Rightarrow> Some (Some err, w1)
               | None \<Rightarrow> (case updateUploadStatusPart env w1 obj of
                   (Some err, w2) \<Rightarrow> Some (Some err, w2)
                 | (None, w2) \<Rightarrow> putObjs_loop n env app w2 objs deep)) = Some (r, w')"
    by (auto split: option.splits)
  have q1: "Q env app w w1" by (rule 5(1)[OF p1])
  show ?case
  proof (cases r1)
    case (Some err)
    with rest q1 show ?thesis by simp
  next
    case None
    obtain r2 w2 where u: "updateUploadStatusPart env w1 obj = (r2, w2)" by force
    have q2: "Q env app w1 w2" using part[of env app w1 obj] u by simp
    show ?thesis
    proof (cases r2)
      case (Some err)
      with rest None u have "w' = w2" by simp
      with q1 q2 show ?thesis by (blast intro: trans)
    next
      case None': None
      with rest None u have lp: "putObjs_loop n env app w2 objs deep = Some (r, w')" by simp
      from 5(2)[OF p1 refl None u[symmetric] None' lp] have "Q env app w2 w'" .
      with q1 q2 show ?thesis by (blast intro: trans)
    qed
  qed
qed

lemma UploadDiffs_loop_rel:
  assumes rfl: "\<And>w. Q w w"
    and trans: "\<And>a b c. Q a b \<Longrightarrow> Q b c \<Longrightarrow> Q a c"
    and put: "\<And>w obj r w'. putObject n env app w obj deep = Some (r, w') \<Longrightarrow> Q w w'"
    and status: "\<And>w p. Q w (snd (updateUploadStatus env w p))"
  shows "UploadDiffs_loop n env app w i count diffs deep = Some (r, w') \<Longrightarrow> Q w w'"
proof (induction diffs arbitrary: w i)
  case Nil
  then show ?case using rfl by simp
next
  case (Cons v vs)
  show ?case
  proof (cases "spinnerStart env w (Uploading_file v (i + 1) count)")
    case (Some e)
    with Cons.prems rfl show ?thesis by simp
  next
    case None
    with Cons.prems obtain r1 w1 where p1: "putObject n env app w v deep = Some (r1, w1)"
      and rest: "(case r1 of Some err \<Rightarrow> Some (Some err, w1)
                 | None \<Rightarrow> (case updateUploadStatus env w1 v of
                     (Some err, w2) \<Rightarrow> Some (Some err, w2)
                   | (None, w2) \<Rightarrow> UploadDiffs_loop n env app w2 (i + 1) count vs deep))
               = Some (r, w')"
      by (auto split: option.splits)
    have q1: "Q w w1" by (rule put[OF p1])
    show ?thesis
    proof (cases r1)
      case (Some e)
      with rest q1 show ?thesis by simp
    next
      case None
      obtain r2 w2 where u: "updateUploadStatus env w1 v = (r2, w2)" by force
      have q2: "Q w1 w2" using status[of w1 v] u by simp
      show ?thesis
      proof (cases r2)
        case (Some e)
        with rest None u have "w' = w2" by simp
        with q1 q2 show ?thesis by (blast intro: trans)
      next
        case None': None
        with rest None u have "UploadDiffs_loop n env app w2 (i + 1) count vs deep = Some (r, w')"
          by simp
        from Cons.IH[OF this] have "Q w2 w'" .
        with q1 q2 show ?thesis by (blast intro: trans)
      qed
    qed
  qed
qed

lemma stepInv_refl: "stepInv env w w"
  by (simp add: stepInv_def putKeysLocalized_def)

lemma stepInv_trans:
  assumes "stepInv env a b" and "stepInv env b c"
  shows "stepInv env a c"
proof -
  from assms have p: "prefix (trace a) (trace b)" "prefix (trace b) (trace c)"
    by (simp_all add: stepInv_def)
  then have "newEvents a c = newEvents a b @ newEvents b c"
    by (rule newEvents_trans)
  moreover from p have "prefix (trace a) (trace c)"
    by (rule prefix_order.trans)
  ultimately show ?thesis
    using assms by (simp add: stepInv_def putKeysLocalized_def)
qed

lemma stepInv_log:
  "putKeysLocalized env [e] \<Longrightarrow> stepInv env w (log e w)"
  by (simp add: stepInv_def)

lemma stepInv_splitObject:
  assumes "splitObject env app w obj info = Some (res, w')"
  shows "stepInv env w w'"
proof -
  obtain ps r where "res = (ps, r)" by (cases res)
  with splitObject_effect[of env app w obj info ps r w'] assms
  obtain evs where "trace w' = trace w @ evs" "putsOf evs = []" by blast
  then show ?thesis
    by (simp add: stepInv_def putKeysLocalized_def newEvents_def)
qed

lemma stepInv_part: "stepInv env w (snd (updateUploadStatusPart env w p))"
  by (auto simp: updateUploadStatusPart_def stepInv_def putKeysLocalized_def newEvents_def
      split: option.splits)

lemma stepInv_status: "stepInv env w (snd (updateUploadStatus env w p))"
  by (auto simp: updateUploadStatus_def stepInv_def putKeysLocalized_def newEvents_def
      split: option.splits)

lemma putObject_family_stepInv:
  shows putObject_stepInv:
      "putObject n env app w obj deep = Some (r, w') \<Longrightarrow> stepInv env w w'"
    and putObjs_stepInv:
      "putObjs n env app w objs deep = Some (r, w') \<Longrightarrow> stepInv env w w'"
proof -
  have stat: "stepInv env w (log (EStat p) w)" for env w p
    by (simp add: stepInv_log putKeysLocalized_def)
  have opn: "stepInv env w (log (EOpen p r) w)" for env w p r
    by (simp add: stepInv_log putKeysLocalized_def)
  have put: "stepInv env w (log (EPut \<lparr>PutBucket = Bucket app, Key = localize env obj,
                         PutStorageClass = sc, Body = obj\<rparr> r) w)" for env app w obj sc r
    by (simp add: stepInv_log putKeysLocalized_def)
  note rel = putObject_family_rel[where Q = "\<lambda>env app. stepInv env" and env = env and app = app,
      OF stepInv_refl stepInv_trans stat opn put stepInv_splitObject stepInv_part]
  show "putObject n env app w obj deep = Some (r, w') \<Longrightarrow> stepInv env w w'"
    by (rule rel(1))
  show "putObjs n env app w objs deep = Some (r, w') \<Longrightarrow> stepInv env w w'"
    by (rule rel(2))
qed

lemma UploadDiffs_stepInv:
  assumes "UploadDiffs n env app w diffs deep = Some (r, w')"
  shows "stepInv env w w'"
proof (cases "diffs = []")
  case True
  with assms show ?thesis by (simp add: UploadDiffs_def stepInv_refl)
next
  case False
  with assms have "UploadDiffs_loop n env app w 0 (length diffs) diffs deep = Some (r, w')"
    by (simp add: UploadDiffs_def)
  from UploadDiffs_loop_rel[where Q = "stepInv env" and env = env,
          OF stepInv_refl stepInv_trans putObject_stepInv stepInv_status this]
  show ?thesis .
qed

text \<open>The file records change in \<open>updateUploadStatus\<close> only.\<close>

lemma splitObject_fileRecords:
  assumes "splitObject env app w obj info = Some (res, w')"
  shows "fileRecords w' = fileRecords w"
proof -
  obtain ps r where "res = (ps, r)" by (cases res)
  with splitObject_effect[of env app w obj info ps r w'] assms show ?thesis by blast
qed

lemma putObject_fileRecords:
  assumes "putObject n env app w obj deep = Some (r, w')"
  shows "fileRecords w' = fileRecords w"
proof -
  have part: "fileRecords (snd (updateUploadStatusPart env w p)) = fileRecords w" for env w p
    by (simp add: updateUploadStatusPart_def split: option.splits)
  show ?thesis
    by (rule putObject_family_rel(1)[where Q = "\<lambda>env app w w'. fileRecords w' = fileRecords w"
          and env = env and app = app, OF _ _ _ _ _ splitObject_fileRecords part assms])
       simp_all
qed

lemma keepsUploaded_refl: "keepsUploaded w w"
  by (simp add: keepsUploaded_def)

lemma keepsUploaded_trans: "keepsUploaded a b \<Longrightarrow> keepsUploaded b c \<Longrightarrow> keepsUploaded a c"
  unfolding keepsUploaded_def by blast

lemma keepsUploaded_status: "keepsUploaded w (snd (updateUploadStatus env w p))"
  by (auto simp: keepsUploaded_def updateUploadStatus_def split: option.splits)

lemma keepsUploaded_putObject:
  "putObject n env app w obj deep = Some (r, w') \<Longrightarrow> keepsUploaded w w'"
  by (simp add: keepsUploaded_def putObject_fileRecords)




text \<open>An Uploaded record stays Uploaded across a batch.\<close>

lemma UploadDiffs_keepsUploaded:
  assumes "UploadDiffs n env app w diffs deep = Some (r, w')"
  shows "keepsUploaded w w'"
proof (cases "diffs = []")
  case True
  with assms show ?thesis by (simp add: UploadDiffs_def keepsUploaded_refl)
next
  case False
  with assms have "UploadDiffs_loop n env app w 0 (length diffs) diffs deep = Some (r, w')"
    by (simp add: UploadDiffs_def)
  from UploadDiffs_loop_rel[where Q = keepsUploaded and env = env,
          OF keepsUploaded_refl keepsUploaded_trans keepsUploaded_putObject
             keepsUploaded_status this]
  show ?thesis .
qed

subsection \<open>Whole files and split files\<close>

text \<open>What \<open>putObject\<close> does on a file at or under the threshold.\<close>

lemma putObject_whole:
  assumes "fs w obj = Some info" and "Size info \<le> 4294967296"
  shows "putObject (Suc n) env app w obj deep =
     (let w1 = log (EStat obj) w;
          ro = openErr env w1 obj;
          w2 = log (EOpen obj ro) w1;
          inp = \<lparr>PutBucket = Bucket app, Key = localize env obj,
                  PutStorageClass = (if deep then StorageClassDeepArchive else StorageClassStandard),
                  Body = obj\<rparr>;
          r = s3PutObject env w2 inp
      in case ro of
           Some err \<Rightarrow> Some (Some err, w2)
         | None \<Rightarrow> Some (r, log (EPut inp r) w2))"
  using assms by (simp add: os_Stat_def os_Open_def Let_def split: option.splits)

lemma putObject_whole_events:
  assumes "fs w obj = Some info" and "Size info \<le> 4294967296"
  shows "\<exists>r w' evs. putObject (Suc n) env app w obj deep = Some (r, w') \<and>
           trace w' = trace w @ evs \<and> fs w' = fs w \<and> fileRecords w' = fileRecords w \<and>
           transfers w' = transfers w \<and> parts w' = parts w \<and>
           ((\<exists>e. r = Some e \<and> evs = [EStat obj, EOpen obj (Some e)]) \<or>
            evs = [EStat obj, EOpen obj None,
                   EPut \<lparr>PutBucket = Bucket app, Key = localize env obj,
                          PutStorageClass =
                            (if deep then StorageClassDeepArchive else StorageClassStandard),
                          Body = obj\<rparr> r])"
  unfolding putObject_whole[OF assms]
  by (cases "openErr env (log (EStat obj) w) obj") (simp_all add: Let_def)

text \<open>What \<open>putObject\<close> does first on a file over the threshold.\<close>

lemma putObject_split_events:
  assumes "fs w obj = Some info" and big: "Size info > 4294967296"
    and p: "putObject (Suc n) env app w obj deep = Some (r, w')"
  shows "\<exists>i evs. trace w' = trace w @ EStat obj # ESetMultipart obj i # evs"
proof -
  define w1 where "w1 = log (EStat obj) w"
  from p assms obtain pieces e w2 where
    sp: "splitObject env app w1 obj info = Some ((pieces, e), w2)"
    and rest: "(case e of Some err \<Rightarrow> Some (Some err, w2)
                | None \<Rightarrow> putObjs n env app w2 pieces deep) = Some (r, w')"
    by (auto simp: os_Stat_def w1_def simp del: putObjs.simps split: option.splits prod.splits)
  from splitObject_effect[OF sp] obtain evs i where
    evs: "trace w2 = trace w1 @ evs" "take 1 evs = [ESetMultipart obj i]" by blast
  then obtain evs' where evs': "evs = ESetMultipart obj i # evs'"
    by (cases evs) auto
  have "prefix (trace w2) (trace w')"
  proof (cases e)
    case (Some err)
    with rest show ?thesis by simp
  next
    case None
    with rest have "putObjs n env app w2 pieces deep = Some (r, w')" by simp
    from putObjs_stepInv[OF this] show ?thesis by (simp add: stepInv_def)
  qed
  then obtain more where "trace w' = trace w2 @ more" by (auto simp: prefix_def)
  with evs evs' have "trace w' = trace w @ EStat obj # ESetMultipart obj i # evs' @ more"
    by (simp add: w1_def)
  then show ?thesis by blast
qed


lemma putObject_missing:
  "fs w obj = None \<Longrightarrow>
     putObject (Suc n) env app w obj deep = Some (Some (NotExist obj), log (EStat obj) w)"
  by (simp add: os_Stat_def)

text \<open>After a split that returned its pieces, none of them is there to upload:
  \<^verbatim>\<open>putObjs\<close> stops at the \<^verbatim>\<open>os.Stat\<close> of the first piece, and no Put is made.\<close>

lemma putObjs_pieces_gone:
  assumes "splitObject env app w obj info = Some ((pieces, None), w')"
  shows "putObjs (Suc n) env app w' pieces deep =
           (case spinnerStart env w' Uploading_parts of
              Some err \<Rightarrow> Some (Some err, w')
            | None \<Rightarrow> (case pieces of
                [] \<Rightarrow> Some (None, w')
              | p # ps \<Rightarrow> Some (Some (NotExist p), log (EStat p) w')))"
proof -
  from splitObject_effect[OF assms] have "\<forall>p\<in>set pieces. fs w' p = None"
    by auto
  then show ?thesis
    by (cases pieces) (simp_all add: os_Stat_def split: option.splits)
qed

text \<open>Whatever the splitter sent: a terminal error is lost as soon as the parts
  are recorded without error.\<close>

lemma splitObject_error_lost:
  assumes "setMultipart env w obj = (Inr i, w1)"
    and "spinnerStart env (log (ESplitFile obj) w1) (Splitting obj) = None"
    and "split_loop (SplitFile env w1 obj) (log (ESplitFile obj) w1) [] =
           Some ((pieces, Some e), w3)"
    and "recordParts env w3 i pieces = (None, w4)"
  shows "splitObject env app w obj info = Some ((pieces, None), CleanUp pieces w4)"
  using assms by (simp add: splitObject_def Let_def)

text \<open>A batch of whole (or missing) files: what the loop of \<open>UploadDiffs\<close> calls.\<close>

lemma UploadDiffs_loop_whole:
  assumes "\<forall>v\<in>set diffs. \<forall>info. fs w v = Some info \<longrightarrow> Size info \<le> 4294967296"
  shows "\<exists>r w' evs. UploadDiffs_loop (Suc n) env app w i count diffs deep = Some (r, w') \<and>
           trace w' = trace w @ evs \<and> (\<forall>prev. statusAfterPut prev evs) \<and>
           prefix (commitsOf evs) (okPutsOf evs) \<and> fs w' = fs w \<and>
           (\<forall>p. fileRecords w' p \<noteq> fileRecords w p \<longrightarrow> p \<in> set (commitsOf evs))"
  using assms
proof (induction diffs arbitrary: w i)
  case Nil
  show ?case by (intro exI[of _ None] exI[of _ w] exI[of _ "[]"]) simp
next
  case (Cons v vs)
  let ?goal = "\<exists>r w' evs.
           UploadDiffs_loop (Suc n) env app w i count (v # vs) deep = Some (r, w') \<and>
           trace w' = trace w @ evs \<and> (\<forall>prev. statusAfterPut prev evs) \<and>
           prefix (commitsOf evs) (okPutsOf evs) \<and> fs w' = fs w \<and>
           (\<forall>p. fileRecords w' p \<noteq> fileRecords w p \<longrightarrow> p \<in> set (commitsOf evs))"
  show ?case
  proof (cases "spinnerStart env w (Uploading_file v (i + 1) count)")
    case (Some e)
    then show ?thesis
      by (intro exI[of _ "Some e"] exI[of _ w] exI[of _ "[]"]) simp
  next
    case None
    note spin = None
    show ?thesis
    proof (cases "fs w v")
      case None
      with spin show ?thesis
        by (intro exI[of _ "Some (NotExist v)"] exI[of _ "log (EStat v) w"] exI[of _ "[EStat v]"])
           (simp add: os_Stat_def)
    next
      case (Some info)
      with Cons.prems have le: "Size info \<le> 4294967296" by simp
      from putObject_whole_events[OF Some le, of n env app deep]
      obtain r1 w1 evs1 where p1: "putObject (Suc n) env app w v deep = Some (r1, w1)"
        and t1: "trace w1 = trace w @ evs1" and f1: "fs w1 = fs w"
        and fr1: "fileRecords w1 = fileRecords w"
        and sh: "(\<exists>e. r1 = Some e \<and> evs1 = [EStat v, EOpen v (Some e)]) \<or>
            evs1 = [EStat v, EOpen v None,
                   EPut \<lparr>PutBucket = Bucket app, Key = localize env v,
                          PutStorageClass =
                            (if deep then StorageClassDeepArchive else StorageClassStandard),
                          Body = v\<rparr> r1]"
        by blast
      show ?thesis
      proof (cases r1)
        case (Some e)
        with spin p1 t1 f1 fr1 sh show ?thesis
          by (intro exI[of _ "Some e"] exI[of _ w1] exI[of _ evs1]) auto
      next
        case None
        note r1 = None
        with sh have evs1: "evs1 = [EStat v, EOpen v None,
                   EPut \<lparr>PutBucket = Bucket app, Key = localize env v,
                          PutStorageClass =
                            (if deep then StorageClassDeepArchive else StorageClassStandard),
                          Body = v\<rparr> None]"
          by simp
        obtain r2 w2 where u: "updateUploadStatus env w1 v = (r2, w2)" by force
        note ue = updateUploadStatus_effect[OF u]
        show ?thesis
        proof (cases r2)
          case (Some e)
          with spin p1 r1 u t1 f1 fr1 evs1 ue show ?thesis
            by (intro exI[of _ "Some e"] exI[of _ w2]
                exI[of _ "evs1 @ [EUpdateUploadStatus v (Some e)]"]) auto
        next
          case None
          note r2 = None
          from Cons.prems f1 ue(2)
          have "\<forall>v\<in>set vs. \<forall>info. fs w2 v = Some info \<longrightarrow> Size info \<le> 4294967296"
            by simp
          from Cons.IH[OF this, of "i + 1"] obtain r w' evs where
            l: "UploadDiffs_loop (Suc n) env app w2 (i + 1) count vs deep = Some (r, w')"
            and t: "trace w' = trace w2 @ evs" and s: "\<forall>prev. statusAfterPut prev evs"
            and c: "prefix (commitsOf evs) (okPutsOf evs)" and f: "fs w' = fs w2"
            and fr: "\<forall>p. fileRecords w' p \<noteq> fileRecords w2 p \<longrightarrow> p \<in> set (commitsOf evs)"
            by blast
          have res: "UploadDiffs_loop (Suc n) env app w i count (v # vs) deep = Some (r, w')"
            using spin p1 r1 u r2 l by (simp del: putObject.simps)
          have tr: "trace w' = trace w @ (evs1 @ [EUpdateUploadStatus v None] @ evs)"
            using t t1 ue(1) r2 by simp
          have st: "\<forall>prev. statusAfterPut prev (evs1 @ [EUpdateUploadStatus v None] @ evs)"
            using s by (simp add: evs1)
          have pc: "prefix (commitsOf (evs1 @ [EUpdateUploadStatus v None] @ evs))
                      (okPutsOf (evs1 @ [EUpdateUploadStatus v None] @ evs))"
            using c by (simp add: evs1)
          have frs: "\<forall>p. fileRecords w' p \<noteq> fileRecords w p \<longrightarrow>
                       p \<in> set (commitsOf (evs1 @ [EUpdateUploadStatus v None] @ evs))"
          proof (intro allI impI)
            fix p assume d: "fileRecords w' p \<noteq> fileRecords w p"
            show "p \<in> set (commitsOf (evs1 @ [EUpdateUploadStatus v None] @ evs))"
            proof (cases "fileRecords w' p = fileRecords w2 p")
              case True
              with d fr1 have "fileRecords w2 p \<noteq> fileRecords w1 p" by simp
              with ue(3) have "p = v" by blast
              then show ?thesis by (simp add: evs1)
            next
              case False
              with fr have "p \<in> set (commitsOf evs)" by blast
              then show ?thesis by (simp add: evs1)
            qed
          qed
          from res tr st pc frs f f1 ue(2) show ?thesis
            by (intro exI[of _ r] exI[of _ w']
                exI[of _ "evs1 @ [EUpdateUploadStatus v None] @ evs"]) simp
        qed
      qed
    qed
  qed
qed

subsection \<open>Returning\<close>

text \<open>The \<^verbatim>\<open>select\<close> loop returns exactly when the splitter sends a terminal value.\<close>

lemma split_loop_returns:
  "(\<exists>res w'. split_loop ms w ps = Some (res, w')) \<longleftrightarrow> (\<exists>e. Done e \<in> set ms)"
  by (induction ms w ps rule: split_loop.induct) auto

lemma splitObject_returns:
  assumes "\<forall>w p. \<exists>e. Done e \<in> set (SplitFile env w p)"
  shows "\<exists>res w'. splitObject env app w obj info = Some (res, w')"
proof -
  obtain x w1 where sm: "setMultipart env w obj = (x, w1)" by force
  show ?thesis
  proof (cases x)
    case (Inl err)
    with sm show ?thesis by (simp add: splitObject_def)
  next
    case (Inr i)
    define w2 where "w2 = log (ESplitFile obj) w1"
    show ?thesis
    proof (cases "spinnerStart env w2 (Splitting obj)")
      case (Some err)
      with sm Inr show ?thesis by (simp add: splitObject_def Let_def w2_def)
    next
      case None
      from assms split_loop_returns[of "SplitFile env w1 obj" w2 "[]"]
      obtain pieces e w3 where
        lp: "split_loop (SplitFile env w1 obj) w2 [] = Some ((pieces, e), w3)"
        by (metis prod.exhaust)
      obtain rr w4 where rp: "recordParts env w3 i pieces = (rr, w4)" by force
      from sm Inr None lp rp show ?thesis
        by (cases rr) (simp_all add: splitObject_def Let_def w2_def)
    qed
  qed
qed

text \<open>With a splitter that always sends a terminal value, a nesting depth of two is
  enough for \<open>putObject\<close> to return: the pieces of a split are gone before their
  upload starts, so none of them is split again.\<close>

lemma putObject_returns:
  assumes "\<forall>w p. \<exists>e. Done e \<in> set (SplitFile env w p)"
  shows "\<exists>r w'. putObject (Suc (Suc n)) env app w obj deep = Some (r, w')"
proof (cases "fs w obj")
  case None
  then show ?thesis by (simp add: os_Stat_def)
next
  case (Some info)
  show ?thesis
  proof (cases "Size info > 4294967296")
    case False
    then have "Size info \<le> 4294967296" by simp
    from putObject_whole_events[OF Some this, of "Suc n" env app deep] show ?thesis by blast
  next
    case True
    from splitObject_returns[OF assms, of app "log (EStat obj) w" obj info]
    obtain pieces e w2 where
      sp: "splitObject env app (log (EStat obj) w) obj info = Some ((pieces, e), w2)"
      by auto
    show ?thesis
    proof (cases e)
      case (Some err)
      with sp True \<open>fs w obj = Some info\<close> show ?thesis
        by (simp add: os_Stat_def del: putObjs.simps)
    next
      case None
      with sp have sp': "splitObject env app (log (EStat obj) w) obj info =
          Some ((pieces, None), w2)" by simp
      have "\<exists>r w'. putObjs (Suc n) env app w2 pieces deep = Some (r, w')"
        unfolding putObjs_pieces_gone[OF sp']
        by (simp split: option.splits list.splits)
      with sp' True \<open>fs w obj = Some info\<close> show ?thesis
        by (simp add: os_Stat_def del: putObjs.simps)
    qed
  qed
qed


lemma UploadDiffs_loop_returns:
  assumes "\<forall>w p. \<exists>e. Done e \<in> set (SplitFile env w p)"
  shows "\<exists>r w'. UploadDiffs_loop (Suc (Suc n)) env app w i count diffs deep = Some (r, w')"
proof (induction diffs arbitrary: w i)
  case Nil
  show ?case by simp
next
  case (Cons v vs)
  from putObject_returns[OF assms, of n app w v deep] obtain r1 w1 where
    p1: "putObject (Suc (Suc n)) env app w v deep = Some (r1, w1)" by blast
  obtain r2 w2 where u: "updateUploadStatus env w1 v = (r2, w2)" by force
  from Cons.IH[of w2 "i + 1"] obtain r w' where
    "UploadDiffs_loop (Suc (Suc n)) env app w2 (i + 1) count vs deep = Some (r, w')" by blast
  with p1 u show ?case
    by (simp del: putObject.simps split: option.splits)
qed

lemma UploadDiffs_returns:
  assumes "\<forall>w p. \<exists>e. Done e \<in> set (SplitFile env w p)"
  shows "\<exists>r w'. UploadDiffs (Suc (Suc n)) env app w diffs deep = Some (r, w')"
  using UploadDiffs_loop_returns[OF assms, of n app w 0 "length diffs" diffs deep]
  by (simp add: UploadDiffs_def del: putObject.simps)

subsection \<open>The manifest and the inventory\<close>

lemma UpdateManifest_loop_trace:
  "\<exists>evs. trace (UpdateManifest_loop env w objs) = trace w @ evs \<and> updatesOf evs = objs"
proof (induction objs arbitrary: w)
  case Nil
  then show ?case by simp
next
  case (Cons kv objs)
  obtain k v where kv: "kv = (k, v)" by (cases kv)
  define w1 where "w1 = snd (updateRecord env w k v)"
  have t1: "\<exists>r. trace w1 = trace w @ [EUpdateRecord k v r]"
    by (auto simp: w1_def updateRecord_def split: option.splits)
  then obtain r where r: "trace w1 = trace w @ [EUpdateRecord k v r]" ..
  from Cons.IH[of w1] obtain evs where
    "trace (UpdateManifest_loop env w1 objs) = trace w1 @ evs" "updatesOf evs = objs" by blast
  with r kv show ?case
    by (intro exI[of _ "EUpdateRecord k v r # evs"]) (simp add: w1_def)
qed

lemma inFilters_iff: "inFilters name filters \<longleftrightarrow> (\<exists>f\<in>set filters. HasSuffix name f)"
  by (induction filters) auto

lemma walkFn_dom:
  assumes "walkFn env filters w m a = ((r, m'), w')" and "k \<in> dom m'" and "k \<notin> dom m"
  shows "\<exists>p info. a = Visit p info \<and> \<not> IsDir info \<and> inFilters (Name info) filters \<and>
           k = localize env p"
  using assms
  by (cases a) (auto simp: walkFn_def getLastModDate_def os_Stat_def
      split: if_splits option.splits prod.splits sum.splits)

lemma Walk_loop_dom:
  assumes "Walk_loop env filters w m as = ((r, m'), w')" and "k \<in> dom m'" and "k \<notin> dom m"
  shows "\<exists>p info. Visit p info \<in> set as \<and> \<not> IsDir info \<and> inFilters (Name info) filters \<and>
           k = localize env p"
  using assms
proof (induction as arbitrary: w m)
  case Nil
  then show ?case by auto
next
  case (Cons a as)
  obtain r1 m1 w1 where s1: "walkFn env filters w m a = ((r1, m1), w1)"
    by (metis prod.exhaust)
  show ?case
  proof (cases "k \<in> dom m1")
    case True
    from walkFn_dom[OF s1 True Cons.prems(3)] show ?thesis by auto
  next
    case False
    show ?thesis
    proof (cases r1)
      case None
      with Cons.prems(1) s1 have "Walk_loop env filters w1 m1 as = ((r, m'), w')" by simp
      from Cons.IH[OF this Cons.prems(2) False] show ?thesis by auto
    next
      case (Some e)
      with Cons.prems(1) s1 have "m' = m1" by simp
      with False Cons.prems(2) show ?thesis by simp
    qed
  qed
qed

lemma Walk_loop_no_filters: "Walk_loop env [] w m as = ((None, m), w)"
  by (induction as) (auto simp: walkFn_def split: walk_arg.splits)

subsection \<open>The loop of the batch driver\<close>

text \<open>The loop over a list in two parts: the second part runs where the first
  returned nil.\<close>

lemma UploadDiffs_loop_append:
  "UploadDiffs_loop n env app w i count (xs @ ys) deep =
     (case UploadDiffs_loop n env app w i count xs deep of
        None \<Rightarrow> None
      | Some (Some err, w1) \<Rightarrow> Some (Some err, w1)
      | Some (None, w1) \<Rightarrow> UploadDiffs_loop n env app w1 (i + length xs) count ys deep)"
proof (induction xs arbitrary: w i)
  case Nil
  show ?case by simp
next
  case (Cons v vs)
  show ?case
  proof (cases "spinnerStart env w (Uploading_file v (i + 1) count)")
    case (Some e)
    then show ?thesis by simp
  next
    case None
    note spin = None
    show ?thesis
    proof (cases "putObject n env app w v deep")
      case None
      with spin show ?thesis by simp
    next
      case (Some rw)
      obtain r1 w1 where rw: "rw = (r1, w1)" by (cases rw)
      show ?thesis
      proof (cases r1)
        case (Some e)
        with spin \<open>putObject n env app w v deep = Some rw\<close> rw show ?thesis by simp
      next
        case None
        obtain r2 w2 where u: "updateUploadStatus env w1 v = (r2, w2)" by force
        show ?thesis
        proof (cases r2)
          case (Some e)
          with spin \<open>putObject n env app w v deep = Some rw\<close> rw None u show ?thesis by simp
        next
          case None': None
          from Cons.IH[of w2 "i + 1"]
          show ?thesis
            using spin \<open>putObject n env app w v deep = Some rw\<close> rw None u None'
            by (simp split: option.splits prod.splits)
        qed
      qed
    qed
  qed
qed

text \<open>One turn of the loop on a file at or under the threshold.\<close>

lemma UploadDiffs_loop_one_whole:
  assumes f: "fs w v = Some info" and le: "Size info \<le> 4294967296"
  shows "\<exists>r w1. UploadDiffs_loop (Suc n) env app w i count [v] deep = Some (r, w1) \<and>
           statusAfterPut None (newEvents w w1) \<and>
           (if r = None
            then newEvents w w1 =
                   [EStat v, EOpen v None,
                    EPut \<lparr>PutBucket = Bucket app, Key = localize env v,
                          PutStorageClass =
                            (if deep then StorageClassDeepArchive else StorageClassStandard),
                          Body = v\<rparr> None,
                    EUpdateUploadStatus v None] \<and>
                 fileRecords w1 =
                   (case fileRecords w v of
                      None \<Rightarrow> fileRecords w
                    | Some rec \<Rightarrow> (fileRecords w)(v \<mapsto> rec\<lparr>uploadStatus := Uploaded\<rparr>))
            else commitsOf (newEvents w w1) = [] \<and> fileRecords w1 = fileRecords w)"
proof (cases "spinnerStart env w (Uploading_file v (i + 1) count)")
  case (Some e)
  then show ?thesis
    by (intro exI[of _ "Some e"] exI[of _ w]) simp
next
  case None
  note spin = None
  from putObject_whole_events[OF f le, of n env app deep]
  obtain r1 w1 evs1 where p1: "putObject (Suc n) env app w v deep = Some (r1, w1)"
    and t1: "trace w1 = trace w @ evs1"
    and fr1: "fileRecords w1 = fileRecords w"
    and sh: "(\<exists>e. r1 = Some e \<and> evs1 = [EStat v, EOpen v (Some e)]) \<or>
        evs1 = [EStat v, EOpen v None,
               EPut \<lparr>PutBucket = Bucket app, Key = localize env v,
                      PutStorageClass =
                        (if deep then StorageClassDeepArchive else StorageClassStandard),
                      Body = v\<rparr> r1]"
    by blast
  show ?thesis
  proof (cases r1)
    case (Some e)
    with spin p1 t1 fr1 sh show ?thesis
      by (intro exI[of _ "Some e"] exI[of _ w1]) (auto simp: newEvents_def)
  next
    case None
    note r1 = None
    with sh have evs1: "evs1 = [EStat v, EOpen v None,
               EPut \<lparr>PutBucket = Bucket app, Key = localize env v,
                      PutStorageClass =
                        (if deep then StorageClassDeepArchive else StorageClassStandard),
                      Body = v\<rparr> None]"
      by simp
    obtain r2 w2 where u: "updateUploadStatus env w1 v = (r2, w2)" by force
    then have t2: "trace w2 = trace w1 @ [EUpdateUploadStatus v r2]"
      by (auto simp: updateUploadStatus_def split: option.splits)
    from u fr1 have fr2: "fileRecords w2 =
        (if r2 = None
         then (case fileRecords w v of
                 None \<Rightarrow> fileRecords w
               | Some rec \<Rightarrow> (fileRecords w)(v \<mapsto> rec\<lparr>uploadStatus := Uploaded\<rparr>))
         else fileRecords w)"
      by (auto simp: updateUploadStatus_def split: option.splits)
    have res: "UploadDiffs_loop (Suc n) env app w i count [v] deep = Some (r2, w2)"
      using spin p1 r1 u by (cases r2) (simp_all del: putObject.simps)
    from t1 t2 evs1 have ne: "newEvents w w2 = evs1 @ [EUpdateUploadStatus v r2]"
      by (simp add: newEvents_def)
    show ?thesis
      using res ne fr2 evs1
      by (intro exI[of _ r2] exI[of _ w2]) (cases r2; simp)
  qed
qed



subsection \<open>Runs that differ in the file records only\<close>

lemma sameOutcome_simps [simp]:
  "sameOutcome None y \<longleftrightarrow> y = None"
  "sameOutcome (Some (a, w1)) (Some (b, w2)) \<longleftrightarrow> a = b \<and> sameButRecords w1 w2"
  "sameOutcome (Some p) None \<longleftrightarrow> False"
  by (simp_all add: sameOutcome_def split: prod.splits)


lemma sameButRecords_refl: "sameButRecords w w"
  by (simp add: sameButRecords_def)














section \<open>The claims\<close>

text \<open>C1 says that a terminal failure of the splitter is returned by \<^verbatim>\<open>splitObject\<close>
  unchanged, and that no part is committed as Uploaded. At a splitter that fails
  the code does otherwise: the coordinator receives the error on the completion
  channel, records the parts, and returns the pieces with a nil error. When the
  splitter fails before its first piece, \<^verbatim>\<open>UploadDiffs\<close> goes on to commit the file
  as Uploaded, with no Put made.\<close>

theorem splitObject_drops_splitter_error:
  "map_option (\<lambda>(res, w'). (res, trace w'))
     (splitObject splitFailEnv demoApp demoWorld ''big.bin'' bigFile) =
   Some (([''big.bin.0''], None),
     [ESetMultipart ''big.bin'' (Inr 0), ESplitFile ''big.bin'', EPiece ''big.bin.0'',
      EDone (Some (Failure ''disk full'')), ERecordParts 0 [''big.bin.0''] None,
      ECleanUp [''big.bin.0'']]) \<and>
   map_option (\<lambda>(r, w'). (r, trace w', map_option uploadStatus (fileRecords w' ''big.bin'')))
     (UploadDiffs (Suc (Suc 0)) splitFailFirstEnv demoApp
        (demoWorld\<lparr>fileRecords :=
           [''big.bin'' \<mapsto> \<lparr>lastModified = 1700000000, uploadStatus = Pending\<rparr>]\<rparr>)
        [''big.bin''] False) =
   Some (None,
     [EStat ''big.bin'', ESetMultipart ''big.bin'' (Inr 0), ESplitFile ''big.bin'',
      EDone (Some (Failure ''read error'')), ERecordParts 0 [] None, ECleanUp [],
      EUpdateUploadStatus ''big.bin'' None],
     Some Uploaded)"
  by (simp add: eval_defs splitFailEnv_def splitFailFirstEnv_def)

text \<open>C2 says that the parts of a split file are uploaded in order, each from its
  piece file still on local storage, and marked Uploaded after their Put. At the
  specification's own example (a 10 GiB file, split without error into pieces of
  4, 4 and 2 GiB) the code does otherwise: the pieces are deleted when
  \<^verbatim>\<open>splitObject\<close> returns, the upload of the first piece fails at its \<^verbatim>\<open>os.Stat\<close>, no
  Put is made and no part is marked Uploaded.\<close>

theorem putObject_pieces_deleted_before_upload:
  "map_option (\<lambda>(r, w'). (r, trace w', putsOf (trace w'), map partStatus (parts w')))
     (putObject (Suc (Suc 0)) splitEnv demoApp demoWorld ''big.bin'' False) =
   Some (Some (NotExist ''big.bin.0''),
     [EStat ''big.bin'', ESetMultipart ''big.bin'' (Inr 0), ESplitFile ''big.bin'',
      EPiece ''big.bin.0'', EPiece ''big.bin.1'', EPiece ''big.bin.2'', EDone None,
      ERecordParts 0 [''big.bin.0'', ''big.bin.1'', ''big.bin.2''] None,
      ECleanUp [''big.bin.0'', ''big.bin.1'', ''big.bin.2''], EStat ''big.bin.0''],
     [],
     [Pending, Pending, Pending])"
  by (simp add: eval_defs splitEnv_def)






text \<open>C5: \<^verbatim>\<open>putObject\<close> splits a file exactly when its size is strictly over 4 GiB
  (4294967296 bytes). At or under that size it returns, having opened the file and
  issued at most one Put, of the file itself (exactly one when it returns nil), with
  no transfer or part record created; over that size, its first call after
  \<^verbatim>\<open>os.Stat\<close> is the \<^verbatim>\<open>setMultipart\<close> of the split coordinator.\<close>

theorem putObject_threshold:
  assumes "fs w obj = Some info"
  shows "(Size info \<le> 4 * 1024 * 1024 * 1024 \<longrightarrow>
            (\<exists>r w'. putObject (Suc n) env app w obj deep = Some (r, w') \<and>
               (\<exists>e. take 2 (newEvents w w') = [EStat obj, EOpen obj e]) \<and>
               putsOf (newEvents w w') =
                 (if EOpen obj None \<in> set (newEvents w w')
                  then [\<lparr>PutBucket = Bucket app, Key = localize env obj,
                          PutStorageClass =
                            (if deep then StorageClassDeepArchive else StorageClassStandard),
                          Body = obj\<rparr>]
                  else []) \<and>
               (r = None \<longrightarrow> okPutsOf (newEvents w w') = [obj]) \<and>
               transfers w' = transfers w \<and> parts w' = parts w)) \<and>
         (Size info > 4 * 1024 * 1024 * 1024 \<longrightarrow>
            (\<forall>r w'. putObject (Suc n) env app w obj deep = Some (r, w') \<longrightarrow>
               (\<exists>i. take 2 (newEvents w w') = [EStat obj, ESetMultipart obj i])))"
proof (intro conjI impI allI)
  assume "Size info \<le> 4 * 1024 * 1024 * 1024"
  then have le: "Size info \<le> 4294967296" by simp
  from putObject_whole_events[OF assms le, of n env app deep]
  obtain r w' evs where p: "putObject (Suc n) env app w obj deep = Some (r, w')"
    and t: "trace w' = trace w @ evs" and l: "transfers w' = transfers w" "parts w' = parts w"
    and evs: "(\<exists>e. r = Some e \<and> evs = [EStat obj, EOpen obj (Some e)]) \<or>
            evs = [EStat obj, EOpen obj None,
                   EPut \<lparr>PutBucket = Bucket app, Key = localize env obj,
                          PutStorageClass =
                            (if deep then StorageClassDeepArchive else StorageClassStandard),
                          Body = obj\<rparr> r]"
    by blast
  from t have n: "newEvents w w' = evs" by (simp add: newEvents_def)
  from evs show "\<exists>r w'. putObject (Suc n) env app w obj deep = Some (r, w') \<and>
               (\<exists>e. take 2 (newEvents w w') = [EStat obj, EOpen obj e]) \<and>
               putsOf (newEvents w w') =
                 (if EOpen obj None \<in> set (newEvents w w')
                  then [\<lparr>PutBucket = Bucket app, Key = localize env obj,
                          PutStorageClass =
                            (if deep then StorageClassDeepArchive else StorageClassStandard),
                          Body = obj\<rparr>]
                  else []) \<and>
               (r = None \<longrightarrow> okPutsOf (newEvents w w') = [obj]) \<and>
               transfers w' = transfers w \<and> parts w' = parts w"
  proof
    assume "\<exists>e. r = Some e \<and> evs = [EStat obj, EOpen obj (Some e)]"
    with p n l show ?thesis by (intro exI[of _ r] exI[of _ w']) auto
  next
    assume "evs = [EStat obj, EOpen obj None,
                   EPut \<lparr>PutBucket = Bucket app, Key = localize env obj,
                          PutStorageClass =
                            (if deep then StorageClassDeepArchive else StorageClassStandard),
                          Body = obj\<rparr> r]"
    with p n l show ?thesis by (intro exI[of _ r] exI[of _ w']) auto
  qed
next
  fix r w'
  assume big: "Size info > 4 * 1024 * 1024 * 1024"
    and p: "putObject (Suc n) env app w obj deep = Some (r, w')"
  from big have "Size info > 4294967296" by simp
  from putObject_split_events[OF assms this p] obtain i evs where
    "trace w' = trace w @ EStat obj # ESetMultipart obj i # evs" by blast
  then have "newEvents w w' = EStat obj # ESetMultipart obj i # evs"
    by (simp add: newEvents_def)
  then show "\<exists>i. take 2 (newEvents w w') = [EStat obj, ESetMultipart obj i]"
    by simp
qed

theorem putObject_threshold_witness:
  "map_option (\<lambda>(r, w'). (r, take 2 (trace w'), map Body (putsOf (trace w'))))
     (putObject (Suc (Suc 0)) okEnv demoApp
        (demoWorld\<lparr>fs := [''edge'' \<mapsto> fileOf ''edge'' 4294967296]\<rparr>) ''edge'' False) =
   Some (None, [EStat ''edge'', EOpen ''edge'' None], [''edge'']) \<and>
   map_option (\<lambda>(r, w'). (r, take 2 (trace w'), map Body (putsOf (trace w'))))
     (putObject (Suc (Suc 0)) okEnv demoApp
        (demoWorld\<lparr>fs := [''over'' \<mapsto> fileOf ''over'' 4294967297]\<rparr>) ''over'' False) =
   Some (None, [EStat ''over'', ESetMultipart ''over'' (Inr 0)], [])"
proof -
  have f: "fs (demoWorld\<lparr>fs := [''edge'' \<mapsto> fileOf ''edge'' 4294967296]\<rparr>) ''edge'' =
      Some (fileOf ''edge'' 4294967296)"
    by simp
  from putObject_threshold[OF f, of "Suc 0" okEnv demoApp False] show ?thesis
    by (simp add: eval_defs)
qed

text \<open>C6: when \<^verbatim>\<open>splitObject\<close> returns, with or without an error, none of the piece
  paths it received on the progress channel is on local storage any more; where
  it received any, its last call is the \<^verbatim>\<open>CleanUp\<close> of exactly that list. It does
  return when the splitter always sends a terminal value.\<close>

theorem splitObject_cleans_pieces:
  "(\<forall>res w'. splitObject env app w obj info = Some (res, w') \<longrightarrow>
      (\<forall>p\<in>set (piecesOf (newEvents w w')). fs w' p = None) \<and>
      (piecesOf (newEvents w w') \<noteq> [] \<longrightarrow>
         last (trace w') = ECleanUp (piecesOf (newEvents w w')))) \<and>
   ((\<forall>w p. \<exists>e. Done e \<in> set (SplitFile env w p)) \<longrightarrow>
      (\<exists>res w'. splitObject env app w obj info = Some (res, w')))"
proof (intro conjI allI impI)
  fix res w'
  assume a: "splitObject env app w obj info = Some (res, w')"
  obtain ps r where "res = (ps, r)" by (cases res)
  with splitObject_effect[of env app w obj info ps r w'] a
  obtain evs where evs: "trace w' = trace w @ evs"
    "\<forall>p\<in>set (piecesOf evs). fs w' p = None"
    "piecesOf evs \<noteq> [] \<longrightarrow> last evs = ECleanUp (piecesOf evs)"
    by blast
  then have n: "newEvents w w' = evs" by (simp add: newEvents_def)
  with evs show "\<forall>p\<in>set (piecesOf (newEvents w w')). fs w' p = None" by simp
  assume "piecesOf (newEvents w w') \<noteq> []"
  with evs n show "last (trace w') = ECleanUp (piecesOf (newEvents w w'))"
    by (auto simp: last_append)
next
  assume "\<forall>w p. \<exists>e. Done e \<in> set (SplitFile env w p)"
  then show "\<exists>res w'. splitObject env app w obj info = Some (res, w')"
    by (rule splitObject_returns)
qed

theorem splitObject_cleans_pieces_witness:
  "map_option (\<lambda>(res, w'). (res, piecesOf (newEvents demoWorld w'), last (trace w'),
        map (fs w') [''big.bin.0'']))
     (splitObject splitLedgerFailEnv demoApp demoWorld ''big.bin'' bigFile) =
   Some (([], Some (Failure ''database is locked'')), [''big.bin.0''],
     ECleanUp [''big.bin.0''], [None])"
proof -
  obtain res w' where
    s: "splitObject splitLedgerFailEnv demoApp demoWorld ''big.bin'' bigFile = Some (res, w')"
    by (simp add: eval_defs splitLedgerFailEnv_def splitFailEnv_def)
  from splitObject_cleans_pieces[of splitLedgerFailEnv demoApp demoWorld "''big.bin''" bigFile] s
  have "\<forall>p\<in>set (piecesOf (newEvents demoWorld w')). fs w' p = None" by blast
  then show ?thesis
    by (simp add: eval_defs splitLedgerFailEnv_def splitFailEnv_def newEvents_def)
qed

text \<open>C7 fails as stated: where the separator is the backslash, the path
  \<open>dir\a.txt\<close> is Put under the key \<open>dir\a.txt\<close>, not under \<open>dir/a.txt\<close>.\<close>

theorem putObject_key_not_forward_slash:
  "map_option (map Key \<circ> putsOf \<circ> trace \<circ> snd)
     (putObject (Suc 0) winEnv demoApp winWorld winPath False) = Some [winPath] \<and>
   forwardSlashKey winEnv winPath = ''dir/a.txt'' \<and>
   winPath \<noteq> forwardSlashKey winEnv winPath"
  by (simp add: eval_defs winEnv_def winWorld_def winPath_def forwardSlashKey_def)

text \<open>C7, amended: every Put that \<^verbatim>\<open>UploadDiffs\<close> issues has as key the path of the
  file it uploads with each forward slash replaced by the platform's separator
  (\<^verbatim>\<open>filepath.FromSlash\<close>); where the separator is the forward slash, the key is the
  path itself. \<^verbatim>\<open>UploadDiffs\<close> returns when the splitter always sends a terminal
  value.\<close>

theorem UploadDiffs_put_keys:
  "(\<forall>n r w'. UploadDiffs n env app w diffs deep = Some (r, w') \<longrightarrow>
      list_all
        (\<lambda>inp. Key inp = map (\<lambda>c. if c = CHR ''/'' then Separator env else c) (Body inp) \<and>
               (Separator env = CHR ''/'' \<longrightarrow> Key inp = Body inp))
        (putsOf (newEvents w w'))) \<and>
   ((\<forall>w p. \<exists>e. Done e \<in> set (SplitFile env w p)) \<longrightarrow>
      (\<exists>r w'. UploadDiffs (Suc (Suc m)) env app w diffs deep = Some (r, w')))"
proof (intro conjI allI impI)
  fix n r w'
  assume a: "UploadDiffs n env app w diffs deep = Some (r, w')"
  have "localize env p = map (\<lambda>c. if c = CHR ''/'' then Separator env else c) p" for p
    by (simp add: localize_def FromSlash_def map_idI)
  moreover have "Separator env = CHR ''/'' \<Longrightarrow> localize env p = p" for p
    by (simp add: localize_def FromSlash_def)
  moreover from UploadDiffs_stepInv[OF a]
  have "list_all (\<lambda>inp. Key inp = localize env (Body inp)) (putsOf (newEvents w w'))"
    by (simp add: stepInv_def putKeysLocalized_def)
  ultimately show "list_all
        (\<lambda>inp. Key inp = map (\<lambda>c. if c = CHR ''/'' then Separator env else c) (Body inp) \<and>
               (Separator env = CHR ''/'' \<longrightarrow> Key inp = Body inp))
        (putsOf (newEvents w w'))"
    by (simp add: list_all_iff)
next
  assume "\<forall>w p. \<exists>e. Done e \<in> set (SplitFile env w p)"
  then show "\<exists>r w'. UploadDiffs (Suc (Suc m)) env app w diffs deep = Some (r, w')"
    by (rule UploadDiffs_returns)
qed

theorem UploadDiffs_put_keys_witness:
  "map_option (\<lambda>(r, w'). (r, map (\<lambda>inp. (Key inp, Body inp)) (putsOf (newEvents winWorld w'))))
     (UploadDiffs (Suc 0) winEnv demoApp winWorld [winPath, ''dir/b.txt''] False) =
   Some (None, [(winPath, winPath), (''dir'' @ [CHR 0x5C] @ ''b.txt'', ''dir/b.txt'')])"
proof -
  obtain r w' where
    u: "UploadDiffs (Suc 0) winEnv demoApp winWorld [winPath, ''dir/b.txt''] False = Some (r, w')"
    by (simp add: eval_defs winEnv_def winWorld_def winPath_def)
  from UploadDiffs_put_keys[of winEnv demoApp winWorld "[winPath, ''dir/b.txt'']" False] u
  have "list_all
        (\<lambda>inp. Key inp = map (\<lambda>c. if c = CHR ''/'' then Separator winEnv else c) (Body inp) \<and>
               (Separator winEnv = CHR ''/'' \<longrightarrow> Key inp = Body inp))
        (putsOf (newEvents winWorld w'))" by blast
  then show ?thesis
    by (simp add: eval_defs winEnv_def winWorld_def winPath_def newEvents_def)
qed

text \<open>C8: on any batch, take a file \<open>v\<close> that the loop of \<^verbatim>\<open>UploadDiffs\<close> reaches (the
  units before it, \<open>pre\<close>, were done without error, leaving the world \<open>wv\<close>) and that
  is at or under the threshold there. Its turn of the loop returns. Either the turn
  fails, the batch stops with that error, no file status was committed in the turn
  and the file records are untouched; or the turn's calls are exactly the
  \<^verbatim>\<open>os.Stat\<close>, the \<^verbatim>\<open>os.Open\<close>, one Put of \<open>v\<close> that returned success and then the
  one commit of \<open>v\<close>'s status, which sets the record of \<open>v\<close> to Uploaded and no other.
  On any batch, a path that is Uploaded in the ledger stays Uploaded.\<close>

theorem UploadDiffs_status_after_put:
  "(\<forall>pre v post info wv.
      UploadDiffs_loop (Suc n) env app w 0 (length (pre @ v # post)) pre deep = Some (None, wv) \<and>
      fs wv v = Some info \<and> Size info \<le> 4294967296 \<longrightarrow>
      (\<exists>r1 wv1.
         UploadDiffs_loop (Suc n) env app wv (length pre) (length (pre @ v # post)) [v] deep =
           Some (r1, wv1) \<and>
         UploadDiffs (Suc n) env app w (pre @ v # post) deep =
           (case r1 of
              Some e \<Rightarrow> Some (Some e, wv1)
            | None \<Rightarrow> UploadDiffs_loop (Suc n) env app wv1 (length pre + 1)
                        (length (pre @ v # post)) post deep) \<and>
         statusAfterPut None (newEvents wv wv1) \<and>
         (if r1 = None
          then newEvents wv wv1 =
                 [EStat v, EOpen v None,
                  EPut \<lparr>PutBucket = Bucket app, Key = localize env v,
                        PutStorageClass =
                          (if deep then StorageClassDeepArchive else StorageClassStandard),
                        Body = v\<rparr> None,
                  EUpdateUploadStatus v None] \<and>
               fileRecords wv1 =
                 (case fileRecords wv v of
                    None \<Rightarrow> fileRecords wv
                  | Some rec \<Rightarrow> (fileRecords wv)(v \<mapsto> rec\<lparr>uploadStatus := Uploaded\<rparr>))
          else commitsOf (newEvents wv wv1) = [] \<and> fileRecords wv1 = fileRecords wv))) \<and>
   (\<forall>m diffs r w'. UploadDiffs m env app w diffs deep = Some (r, w') \<longrightarrow> keepsUploaded w w')"
proof (intro conjI allI impI)
  fix pre v post info wv
  assume a: "UploadDiffs_loop (Suc n) env app w 0 (length (pre @ v # post)) pre deep =
      Some (None, wv) \<and> fs wv v = Some info \<and> Size info \<le> 4294967296"
  let ?count = "length (pre @ v # post)"
  from a have pre: "UploadDiffs_loop (Suc n) env app w 0 ?count pre deep = Some (None, wv)"
    and f: "fs wv v = Some info" and le: "Size info \<le> 4294967296" by simp_all
  from UploadDiffs_loop_one_whole[OF f le, of n env app "length pre" ?count deep]
  obtain r1 wv1 where
    one: "UploadDiffs_loop (Suc n) env app wv (length pre) ?count [v] deep = Some (r1, wv1)"
    and st: "statusAfterPut None (newEvents wv wv1)"
    and sh: "if r1 = None
          then newEvents wv wv1 =
                 [EStat v, EOpen v None,
                  EPut \<lparr>PutBucket = Bucket app, Key = localize env v,
                        PutStorageClass =
                          (if deep then StorageClassDeepArchive else StorageClassStandard),
                        Body = v\<rparr> None,
                  EUpdateUploadStatus v None] \<and>
               fileRecords wv1 =
                 (case fileRecords wv v of
                    None \<Rightarrow> fileRecords wv
                  | Some rec \<Rightarrow> (fileRecords wv)(v \<mapsto> rec\<lparr>uploadStatus := Uploaded\<rparr>))
          else commitsOf (newEvents wv wv1) = [] \<and> fileRecords wv1 = fileRecords wv"
    by blast
  have "UploadDiffs (Suc n) env app w (pre @ v # post) deep =
      UploadDiffs_loop (Suc n) env app w 0 ?count (pre @ ([v] @ post)) deep"
    by (simp add: UploadDiffs_def del: putObject.simps UploadDiffs_loop.simps)
  also have "\<dots> = UploadDiffs_loop (Suc n) env app wv (length pre) ?count ([v] @ post) deep"
    unfolding UploadDiffs_loop_append[of _ _ _ _ _ _ pre] using pre by simp
  also have "\<dots> = (case r1 of
              Some e \<Rightarrow> Some (Some e, wv1)
            | None \<Rightarrow> UploadDiffs_loop (Suc n) env app wv1 (length pre + 1) ?count post deep)"
    unfolding UploadDiffs_loop_append[of _ _ _ _ _ _ "[v]"] using one
    by (cases r1) (simp_all del: putObject.simps UploadDiffs_loop.simps)
  finally have whole: "UploadDiffs (Suc n) env app w (pre @ v # post) deep =
      (case r1 of
         Some e \<Rightarrow> Some (Some e, wv1)
       | None \<Rightarrow> UploadDiffs_loop (Suc n) env app wv1 (length pre + 1) ?count post deep)" .
  from one whole st sh
  show "\<exists>r1 wv1.
         UploadDiffs_loop (Suc n) env app wv (length pre) (length (pre @ v # post)) [v] deep =
           Some (r1, wv1) \<and>
         UploadDiffs (Suc n) env app w (pre @ v # post) deep =
           (case r1 of
              Some e \<Rightarrow> Some (Some e, wv1)
            | None \<Rightarrow> UploadDiffs_loop (Suc n) env app wv1 (length pre + 1)
                        (length (pre @ v # post)) post deep) \<and>
         statusAfterPut None (newEvents wv wv1) \<and>
         (if r1 = None
          then newEvents wv wv1 =
                 [EStat v, EOpen v None,
                  EPut \<lparr>PutBucket = Bucket app, Key = localize env v,
                        PutStorageClass =
                          (if deep then StorageClassDeepArchive else StorageClassStandard),
                        Body = v\<rparr> None,
                  EUpdateUploadStatus v None] \<and>
               fileRecords wv1 =
                 (case fileRecords wv v of
                    None \<Rightarrow> fileRecords wv
                  | Some rec \<Rightarrow> (fileRecords wv)(v \<mapsto> rec\<lparr>uploadStatus := Uploaded\<rparr>))
          else commitsOf (newEvents wv wv1) = [] \<and> fileRecords wv1 = fileRecords wv)"
    by (intro exI[of _ r1] exI[of _ wv1]) (simp del: putObject.simps UploadDiffs_loop.simps)
next
  fix m diffs r w'
  assume "UploadDiffs m env app w diffs deep = Some (r, w')"
  then show "keepsUploaded w w'" by (rule UploadDiffs_keepsUploaded)
qed

text \<open>A batch with a file over the threshold between two whole files; the splitter of
  \<open>okEnv\<close> signals success without a piece.\<close>

theorem UploadDiffs_status_after_put_witness:
  "map_option (\<lambda>(r, w'). (r, trace w',
        map (\<lambda>p. map_option uploadStatus (fileRecords w' p)) [''a.txt'', ''b.txt'']))
     (UploadDiffs (Suc (Suc 0)) okEnv demoApp mixedWorld [''a.txt'', ''big.bin'', ''b.txt''] False) =
   Some (None,
     [EStat ''a.txt'', EOpen ''a.txt'' None,
      EPut \<lparr>PutBucket = ''backup'', Key = ''a.txt'', PutStorageClass = StorageClassStandard,
             Body = ''a.txt''\<rparr> None,
      EUpdateUploadStatus ''a.txt'' None,
      EStat ''big.bin'', ESetMultipart ''big.bin'' (Inr 0), ESplitFile ''big.bin'', EDone None,
      ERecordParts 0 [] None, ECleanUp [], EUpdateUploadStatus ''big.bin'' None,
      EStat ''b.txt'', EOpen ''b.txt'' None,
      EPut \<lparr>PutBucket = ''backup'', Key = ''b.txt'', PutStorageClass = StorageClassStandard,
             Body = ''b.txt''\<rparr> None,
      EUpdateUploadStatus ''b.txt'' None],
     [Some Uploaded, Some Uploaded])"
proof -
  obtain wv where
    pre: "UploadDiffs_loop (Suc (Suc 0)) okEnv demoApp mixedWorld 0
            (length ([''a.txt'', ''big.bin''] @ ''b.txt'' # [])) [''a.txt'', ''big.bin''] False =
          Some (None, wv)"
    and f: "fs wv ''b.txt'' = Some (fileOf ''b.txt'' 20)"
    by (simp add: eval_defs mixedWorld_def)
  have le: "Size (fileOf ''b.txt'' 20) \<le> 4294967296" by (simp add: fileOf_def)
  from UploadDiffs_status_after_put[of "Suc 0" okEnv demoApp mixedWorld False] pre f le
  have "\<exists>r1 wv1.
      UploadDiffs (Suc (Suc 0)) okEnv demoApp mixedWorld ([''a.txt'', ''big.bin''] @ ''b.txt'' # [])
        False =
        (case r1 of
           Some e \<Rightarrow> Some (Some e, wv1)
         | None \<Rightarrow> UploadDiffs_loop (Suc (Suc 0)) okEnv demoApp wv1
                     (length [''a.txt'', ''big.bin''] + 1)
                     (length ([''a.txt'', ''big.bin''] @ ''b.txt'' # [])) [] False)"
    by blast
  then show ?thesis
    by (simp add: eval_defs mixedWorld_def)
qed

text \<open>C9: \<^verbatim>\<open>UpdateManifest\<close> returns nil for every input: it calls \<^verbatim>\<open>updateRecord\<close> for
  each entry of the map, in turn, whatever the calls before returned, and reports
  none of their failures.\<close>

theorem UpdateManifest_returns_nil:
  "fst (UpdateManifest env w objs) = None \<and>
   updatesOf (newEvents w (snd (UpdateManifest env w objs))) = objs"
proof -
  obtain evs where "trace (UpdateManifest_loop env w objs) = trace w @ evs" "updatesOf evs = objs"
    using UpdateManifest_loop_trace by blast
  then show ?thesis
    by (simp add: UpdateManifest_def newEvents_def)
qed

theorem UpdateManifest_returns_nil_witness:
  "fst (UpdateManifest dbFailEnv demoWorld [(''a.txt'', 5), (''b.txt'', 6)]) = None \<and>
   trace (snd (UpdateManifest dbFailEnv demoWorld [(''a.txt'', 5), (''b.txt'', 6)])) =
     [EUpdateRecord ''a.txt'' 5 (Some (Failure ''database is locked'')),
      EUpdateRecord ''b.txt'' 6 None]"
  using UpdateManifest_returns_nil [of dbFailEnv demoWorld "[(''a.txt'', 5), (''b.txt'', 6)]"]
  by (simp add: UpdateManifest_def updateRecord_def dbFailEnv_def okEnv_def demoWorld_def log_def)

text \<open>C10: with an empty filter list \<^verbatim>\<open>WalkAndHash\<close> returns an empty map, whatever
  the directory tree: a path is in the inventory only if it was visited as a file
  (not a directory) whose name ends with one of the filters.\<close>

theorem WalkAndHash_empty_filters:
  "fst (fst (WalkAndHash env app w [])) = Map.empty \<and>
   (\<forall>k\<in>dom (fst (fst (WalkAndHash env app w filters))).
      \<exists>p info f. Visit p info \<in> set (Walk env w (FolderPath app)) \<and> \<not> IsDir info \<and>
        f \<in> set filters \<and> HasSuffix (Name info) f \<and> k = localize env p)"
proof
  show "fst (fst (WalkAndHash env app w [])) = Map.empty"
    by (simp add: WalkAndHash_def Walk_loop_no_filters split: option.splits)
next
  show "\<forall>k\<in>dom (fst (fst (WalkAndHash env app w filters))).
      \<exists>p info f. Visit p info \<in> set (Walk env w (FolderPath app)) \<and> \<not> IsDir info \<and>
        f \<in> set filters \<and> HasSuffix (Name info) f \<and> k = localize env p"
  proof
    fix k assume k: "k \<in> dom (fst (fst (WalkAndHash env app w filters)))"
    obtain r m' w' where wl:
      "Walk_loop env filters w Map.empty (Walk env w (FolderPath app)) = ((r, m'), w')"
      by (metis prod.exhaust)
    with k have "k \<in> dom m'"
      by (auto simp: WalkAndHash_def split: option.splits)
    from Walk_loop_dom[OF wl this] show "\<exists>p info f. Visit p info \<in> set (Walk env w (FolderPath app)) \<and> \<not> IsDir info \<and>
        f \<in> set filters \<and> HasSuffix (Name info) f \<and> k = localize env p"
      by (auto simp: inFilters_iff)
  qed
qed

theorem WalkAndHash_empty_filters_witness:
  "fst (fst (WalkAndHash walkEnv demoApp walkWorld [])) = Map.empty \<and>
   fst (fst (WalkAndHash walkEnv demoApp walkWorld [''.jpg''])) = [''data/b.jpg'' \<mapsto> 1700000000]"
proof -
  have "fst (fst (WalkAndHash walkEnv demoApp walkWorld [''.jpg''])) = [''data/b.jpg'' \<mapsto> 1700000000]"
    by (simp add: WalkAndHash_def walkEnv_def okEnv_def demoApp_def walkWorld_def walkFn_def
        fileOf_def HasSuffix_def getLastModDate_def os_Stat_def localize_def FromSlash_def log_def)
  then show ?thesis
    using WalkAndHash_empty_filters [of walkEnv demoApp walkWorld "[''.jpg'']"] by simp
qed

end
